theory Spec2Isabelle
  imports Main
begin

section \<open>Machine arithmetic on \<open>size_t\<close>\<close>

text \<open>
  The cursors \<open>head\<close> and \<open>tail\<close> and the template parameter \<open>S\<close> of
  \<open>ring_buffer.h\<close> are of type \<open>size_t\<close>, taken here as an unsigned 64-bit integer.
  They are modelled as natural numbers with the wrap-around of unsigned addition and
  subtraction written out.
\<close>

definition size_t_limit :: nat where
  "size_t_limit = 2 ^ 64"

definition sz_add :: "nat \<Rightarrow> nat \<Rightarrow> nat" where
  "sz_add a b = (a + b) mod size_t_limit"

definition sz_sub :: "nat \<Rightarrow> nat \<Rightarrow> nat" where
  "sz_sub a b = (a + size_t_limit - b) mod size_t_limit"


section \<open>The buffer state\<close>

text \<open>
  \<open>BaseRingBuffer\<close> holds the two cursors; the mutex \<open>acces_mutex\<close> carries no data
  and is treated separately in the section on the locking discipline. The two final
  classes add their storage array (a list whose length is the physical capacity) and,
  for \<open>FullFlagRingBuffer\<close>, the flag \<open>_full\<close>.
\<close>

record BaseRingBuffer =
  head :: nat
  tail :: nat

record 'a GuardElemRingBuffer = BaseRingBuffer +
  guard_buf :: "'a list"

record 'a FullFlagRingBuffer = BaseRingBuffer +
  flag_buf :: "'a list"
  flag_full :: bool

text \<open>\<open>StaticCapacityRingBuffer::capacity\<close> returns the template parameter.\<close>

definition capacity :: "nat \<Rightarrow> nat" where
  "capacity S = S"


section \<open>GuardElemRingBuffer\<close>

text \<open>
  The operations of the class, statement by statement, as functions of the state of one
  buffer executed by one thread; the template parameter \<open>S\<close> is their first
  argument, \<open>guard_buf\<close> is the array \<open>buf\<close> of \<open>S + 1\<close> slots. The lock
  statement that opens each operation does not change the data and is left to the
  section on the locking discipline. \<open>buf[i]\<close> is read with \<open>!\<close> and written with
  list update; both agree with \<open>std::array\<close> for indices inside the array, which is
  where the cursors of every reachable state are (lemma \<open>guard_after_in_bounds\<close>).
  The remainder \<open>%\<close> is \<open>mod\<close>; the divisor \<open>true_capacity\<close> is not 0 unless
  \<open>S + 1\<close> wraps around.
\<close>

definition GuardElem_true_capacity :: "nat \<Rightarrow> nat" where
  "GuardElem_true_capacity S = sz_add S 1"

definition GuardElem_idx_increment :: "nat \<Rightarrow> nat \<Rightarrow> nat" where
  "GuardElem_idx_increment S idx =
     (let new_idx = sz_add idx 1 in new_idx mod GuardElem_true_capacity S)"

text \<open>The constructor: both cursors 0, every slot value-initialised to \<open>d\<close>.\<close>

definition GuardElem_init :: "nat \<Rightarrow> 'a \<Rightarrow> 'a GuardElemRingBuffer" where
  "GuardElem_init S d =
     \<lparr>head = 0, tail = 0, guard_buf = replicate (GuardElem_true_capacity S) d\<rparr>"

definition GuardElem_full :: "nat \<Rightarrow> 'a GuardElemRingBuffer \<Rightarrow> bool" where
  "GuardElem_full S s \<longleftrightarrow> GuardElem_idx_increment S (head s) = tail s"

definition GuardElem_empty :: "'a GuardElemRingBuffer \<Rightarrow> bool" where
  "GuardElem_empty s \<longleftrightarrow> head s = tail s"

definition GuardElem_read ::
  "nat \<Rightarrow> 'a GuardElemRingBuffer \<Rightarrow> 'a option \<times> 'a GuardElemRingBuffer" where
  "GuardElem_read S s =
     (if GuardElem_empty s then (None, s)
      else
        let res = guard_buf s ! tail s
        in (Some res, s\<lparr>tail := GuardElem_idx_increment S (tail s)\<rparr>))"

definition GuardElem_write ::
  "nat \<Rightarrow> 'a \<Rightarrow> 'a GuardElemRingBuffer \<Rightarrow> 'a GuardElemRingBuffer" where
  "GuardElem_write S data s =
     (let s1 = s\<lparr>guard_buf := (guard_buf s)[head s := data]\<rparr>;
          s2 = (if GuardElem_full S s1
                then s1\<lparr>tail := GuardElem_idx_increment S (tail s1)\<rparr>
                else s1)
      in s2\<lparr>head := GuardElem_idx_increment S (head s2)\<rparr>)"

definition GuardElem_clear :: "'a GuardElemRingBuffer \<Rightarrow> 'a GuardElemRingBuffer" where
  "GuardElem_clear s = s\<lparr>head := tail s\<rparr>"

definition GuardElem_size :: "nat \<Rightarrow> 'a GuardElemRingBuffer \<Rightarrow> nat" where
  "GuardElem_size S s =
     (if GuardElem_full S s then capacity S
      else if head s \<ge> tail s then sz_sub (head s) (tail s)
      else sz_sub (sz_add (GuardElem_true_capacity S) (head s)) (tail s))"


section \<open>FullFlagRingBuffer\<close>

text \<open>
  The same for the class with the full flag: \<open>flag_buf\<close> is the array \<open>buf\<close> of
  \<open>S\<close> slots and \<open>flag_full\<close> the member \<open>_full\<close>. The divisor \<open>S\<close> of
  \<open>idx_increment\<close> is not 0 for a nominal capacity of at least 1, and the cursors of
  every reachable state are inside the array (lemma \<open>flag_after_in_bounds\<close>).
\<close>

definition FullFlag_idx_increment :: "nat \<Rightarrow> nat \<Rightarrow> nat" where
  "FullFlag_idx_increment S idx = (let new_idx = sz_add idx 1 in new_idx mod S)"

definition FullFlag_init :: "nat \<Rightarrow> 'a \<Rightarrow> 'a FullFlagRingBuffer" where
  "FullFlag_init S d =
     \<lparr>head = 0, tail = 0, flag_buf = replicate S d, flag_full = False\<rparr>"

definition FullFlag_full :: "'a FullFlagRingBuffer \<Rightarrow> bool" where
  "FullFlag_full s \<longleftrightarrow> flag_full s"

definition FullFlag_empty :: "'a FullFlagRingBuffer \<Rightarrow> bool" where
  "FullFlag_empty s \<longleftrightarrow> head s = tail s \<and> \<not> flag_full s"

definition FullFlag_read ::
  "nat \<Rightarrow> 'a FullFlagRingBuffer \<Rightarrow> 'a option \<times> 'a FullFlagRingBuffer" where
  "FullFlag_read S s =
     (if FullFlag_empty s then (None, s)
      else
        let res = flag_buf s ! tail s
        in (Some res, s\<lparr>tail := FullFlag_idx_increment S (tail s), flag_full := False\<rparr>))"

definition FullFlag_write ::
  "nat \<Rightarrow> 'a \<Rightarrow> 'a FullFlagRingBuffer \<Rightarrow> 'a FullFlagRingBuffer" where
  "FullFlag_write S data s =
     (let s1 = s\<lparr>flag_buf := (flag_buf s)[head s := data]\<rparr>;
          s2 = (if FullFlag_full s1
                then s1\<lparr>tail := FullFlag_idx_increment S (tail s1)\<rparr>
                else s1);
          s3 = s2\<lparr>head := FullFlag_idx_increment S (head s2)\<rparr>
      in s3\<lparr>flag_full := (head s3 = tail s3)\<rparr>)"

definition FullFlag_clear :: "'a FullFlagRingBuffer \<Rightarrow> 'a FullFlagRingBuffer" where
  "FullFlag_clear s = s\<lparr>head := tail s, flag_full := False\<rparr>"

definition FullFlag_size :: "nat \<Rightarrow> 'a FullFlagRingBuffer \<Rightarrow> nat" where
  "FullFlag_size S s =
     (if flag_full s then S
      else if head s \<ge> tail s then sz_sub (head s) (tail s)
      else sz_sub (sz_add S (head s)) (tail s))"


section \<open>The public interface as a call sequence\<close>

text \<open>
  \<open>BaseRingBuffer\<close> declares seven virtual operations. A caller holding a
  \<open>BaseRingBuffer&\<close> issues a sequence of them; \<open>GuardElem_call\<close> and
  \<open>FullFlag_call\<close> dispatch one call to the operation of the class and return what
  the caller sees together with the next state, \<open>GuardElem_calls\<close> and
  \<open>FullFlag_calls\<close> run a whole sequence and collect the returned values in order.
\<close>

datatype 'a call =
  CallRead | CallWrite 'a | CallClear | CallFull | CallEmpty | CallSize | CallCapacity

datatype 'a ret = RetOptional "'a option" | RetVoid | RetBool bool | RetSize nat

fun GuardElem_call ::
  "nat \<Rightarrow> 'a call \<Rightarrow> 'a GuardElemRingBuffer \<Rightarrow> 'a ret \<times> 'a GuardElemRingBuffer" where
  "GuardElem_call S CallRead s = (let (r, s') = GuardElem_read S s in (RetOptional r, s'))"
| "GuardElem_call S (CallWrite v) s = (RetVoid, GuardElem_write S v s)"
| "GuardElem_call S CallClear s = (RetVoid, GuardElem_clear s)"
| "GuardElem_call S CallFull s = (RetBool (GuardElem_full S s), s)"
| "GuardElem_call S CallEmpty s = (RetBool (GuardElem_empty s), s)"
| "GuardElem_call S CallSize s = (RetSize (GuardElem_size S s), s)"
| "GuardElem_call S CallCapacity s = (RetSize (capacity S), s)"

fun GuardElem_calls ::
  "nat \<Rightarrow> 'a call list \<Rightarrow> 'a GuardElemRingBuffer \<Rightarrow> 'a ret list \<times> 'a GuardElemRingBuffer" where
  "GuardElem_calls S [] s = ([], s)"
| "GuardElem_calls S (c # cs) s =
     (let (r, s') = GuardElem_call S c s;
          (rs, s'') = GuardElem_calls S cs s'
      in (r # rs, s''))"

fun FullFlag_call ::
  "nat \<Rightarrow> 'a call \<Rightarrow> 'a FullFlagRingBuffer \<Rightarrow> 'a ret \<times> 'a FullFlagRingBuffer" where
  "FullFlag_call S CallRead s = (let (r, s') = FullFlag_read S s in (RetOptional r, s'))"
| "FullFlag_call S (CallWrite v) s = (RetVoid, FullFlag_write S v s)"
| "FullFlag_call S CallClear s = (RetVoid, FullFlag_clear s)"
| "FullFlag_call S CallFull s = (RetBool (FullFlag_full s), s)"
| "FullFlag_call S CallEmpty s = (RetBool (FullFlag_empty s), s)"
| "FullFlag_call S CallSize s = (RetSize (FullFlag_size S s), s)"
| "FullFlag_call S CallCapacity s = (RetSize (capacity S), s)"

fun FullFlag_calls ::
  "nat \<Rightarrow> 'a call list \<Rightarrow> 'a FullFlagRingBuffer \<Rightarrow> 'a ret list \<times> 'a FullFlagRingBuffer" where
  "FullFlag_calls S [] s = ([], s)"
| "FullFlag_calls S (c # cs) s =
     (let (r, s') = FullFlag_call S c s;
          (rs, s'') = FullFlag_calls S cs s'
      in (r # rs, s''))"

text \<open>
  The state of a buffer that was constructed (storage value-initialised to \<open>d\<close>) and
  then received the calls \<open>cs\<close>: the reachable states.
\<close>

definition GuardElem_after :: "nat \<Rightarrow> 'a call list \<Rightarrow> 'a \<Rightarrow> 'a GuardElemRingBuffer" where
  "GuardElem_after S cs d = snd (GuardElem_calls S cs (GuardElem_init S d))"

definition FullFlag_after :: "nat \<Rightarrow> 'a call list \<Rightarrow> 'a \<Rightarrow> 'a FullFlagRingBuffer" where
  "FullFlag_after S cs d = snd (FullFlag_calls S cs (FullFlag_init S d))"


section \<open>The contract of the specification\<close>

text \<open>
  The shared contract in the words of the specification, on the queue of live elements
  (oldest first) of a buffer of nominal capacity \<open>C\<close>: \<open>write\<close> appends and, when the
  buffer was already full, discards the oldest element; \<open>read\<close> returns nothing on the
  empty buffer and the oldest element otherwise; \<open>clear\<close> discards everything;
  \<open>size\<close> is the number of writes not yet consumed. It is the reference the two
  classes are compared with, and it is not taken from the source.
\<close>

fun spec_call :: "nat \<Rightarrow> 'a call \<Rightarrow> 'a list \<Rightarrow> 'a ret \<times> 'a list" where
  "spec_call C CallRead q =
     (case q of [] \<Rightarrow> (RetOptional None, []) | x # xs \<Rightarrow> (RetOptional (Some x), xs))"
| "spec_call C (CallWrite v) q = (RetVoid, (if length q = C then tl q else q) @ [v])"
| "spec_call C CallClear q = (RetVoid, [])"
| "spec_call C CallFull q = (RetBool (length q = C), q)"
| "spec_call C CallEmpty q = (RetBool (q = []), q)"
| "spec_call C CallSize q = (RetSize (length q), q)"
| "spec_call C CallCapacity q = (RetSize C, q)"

fun spec_calls :: "nat \<Rightarrow> 'a call list \<Rightarrow> 'a list \<Rightarrow> 'a ret list \<times> 'a list" where
  "spec_calls C [] q = ([], q)"
| "spec_calls C (c # cs) q =
     (let (r, q') = spec_call C c q;
          (rs, q'') = spec_calls C cs q'
      in (r # rs, q''))"

definition spec_after :: "nat \<Rightarrow> 'a call list \<Rightarrow> 'a list" where
  "spec_after C cs = snd (spec_calls C cs [])"


section \<open>The locking discipline\<close>

text \<open>
  Every public operation of both classes begins with the statement
  \<open>std::scoped_lock (this->acces_mutex);\<close>. It is an expression statement: it
  constructs an unnamed temporary \<open>std::scoped_lock\<close>, whose constructor locks the
  mutex and whose destructor, run at the end of that statement, unlocks it. The events
  of a call are listed in program order, one \<open>Touch\<close> for each following statement
  or condition that reads or writes \<open>head\<close>, \<open>tail\<close>, the storage or \<open>_full\<close>;
  \<open>read\<close> and \<open>write\<close> of both classes and \<open>size\<close> of the guard element
  class call the public \<open>empty()\<close> or \<open>full()\<close>, whose events are inserted where
  they are called. \<open>held_at_every_access\<close> runs
  through the events with the state of the mutex and tells whether it is held at every
  \<open>Touch\<close>.
\<close>

datatype event = Lock | Unlock | Touch

definition scoped_lock_statement :: "event list" where
  "scoped_lock_statement = [Lock, Unlock]"

definition GuardElem_empty_events :: "event list" where
  "GuardElem_empty_events = scoped_lock_statement @ [Touch]"

definition GuardElem_full_events :: "event list" where
  "GuardElem_full_events = scoped_lock_statement @ [Touch]"

definition GuardElem_read_events :: "'a GuardElemRingBuffer \<Rightarrow> event list" where
  "GuardElem_read_events s =
     scoped_lock_statement @ GuardElem_empty_events @
     (if GuardElem_empty s then [] else [Touch, Touch])"

definition GuardElem_write_events :: "nat \<Rightarrow> 'a GuardElemRingBuffer \<Rightarrow> event list" where
  "GuardElem_write_events S s =
     scoped_lock_statement @ [Touch] @ GuardElem_full_events @
     (if GuardElem_full S s then [Touch] else []) @ [Touch]"

definition GuardElem_clear_events :: "event list" where
  "GuardElem_clear_events = scoped_lock_statement @ [Touch]"

definition GuardElem_size_events :: "nat \<Rightarrow> 'a GuardElemRingBuffer \<Rightarrow> event list" where
  "GuardElem_size_events S s =
     scoped_lock_statement @ GuardElem_full_events @
     (if GuardElem_full S s then []
      else if head s \<ge> tail s then [Touch]
      else [Touch, Touch])"

definition FullFlag_full_events :: "event list" where
  "FullFlag_full_events = scoped_lock_statement @ [Touch]"

definition FullFlag_empty_events :: "event list" where
  "FullFlag_empty_events = scoped_lock_statement @ [Touch]"

definition FullFlag_read_events :: "'a FullFlagRingBuffer \<Rightarrow> event list" where
  "FullFlag_read_events s =
     scoped_lock_statement @ FullFlag_empty_events @
     (if FullFlag_empty s then [] else [Touch, Touch, Touch])"

definition FullFlag_write_events :: "'a FullFlagRingBuffer \<Rightarrow> event list" where
  "FullFlag_write_events s =
     scoped_lock_statement @ [Touch] @ FullFlag_full_events @
     (if FullFlag_full s then [Touch] else []) @ [Touch, Touch]"

definition FullFlag_clear_events :: "event list" where
  "FullFlag_clear_events = scoped_lock_statement @ [Touch, Touch]"

definition FullFlag_size_events :: "'a FullFlagRingBuffer \<Rightarrow> event list" where
  "FullFlag_size_events s =
     scoped_lock_statement @ [Touch] @
     (if flag_full s then []
      else if head s \<ge> tail s then [Touch]
      else [Touch, Touch])"

fun held_at_every_access :: "bool \<Rightarrow> event list \<Rightarrow> bool" where
  "held_at_every_access held [] = True"
| "held_at_every_access held (Lock # es) = held_at_every_access True es"
| "held_at_every_access held (Unlock # es) = held_at_every_access False es"
| "held_at_every_access held (Touch # es) = (held \<and> held_at_every_access held es)"


section \<open>Representation invariants and the abstraction to a queue\<close>

text \<open>
  Proof devices, not code: the invariant each class maintains (cursors inside the
  storage array, so that no access is out of range), the number of live elements, and
  the live elements read off the storage from \<open>tail\<close> onwards.
\<close>

definition guard_inv :: "nat \<Rightarrow> 'a GuardElemRingBuffer \<Rightarrow> bool" where
  "guard_inv S s \<longleftrightarrow> head s \<le> S \<and> tail s \<le> S \<and> length (guard_buf s) = S + 1"

definition guard_live :: "nat \<Rightarrow> 'a GuardElemRingBuffer \<Rightarrow> nat" where
  "guard_live S s = (head s + (S + 1) - tail s) mod (S + 1)"

definition guard_contents :: "nat \<Rightarrow> 'a GuardElemRingBuffer \<Rightarrow> 'a list" where
  "guard_contents S s =
     map (\<lambda>i. guard_buf s ! ((tail s + i) mod (S + 1))) [0..<guard_live S s]"

definition flag_inv :: "nat \<Rightarrow> 'a FullFlagRingBuffer \<Rightarrow> bool" where
  "flag_inv S s \<longleftrightarrow>
     head s < S \<and> tail s < S \<and> length (flag_buf s) = S \<and> (flag_full s \<longrightarrow> head s = tail s)"

definition flag_live :: "nat \<Rightarrow> 'a FullFlagRingBuffer \<Rightarrow> nat" where
  "flag_live S s = (if flag_full s then S else (head s + S - tail s) mod S)"

definition flag_contents :: "nat \<Rightarrow> 'a FullFlagRingBuffer \<Rightarrow> 'a list" where
  "flag_contents S s =
     map (\<lambda>i. flag_buf s ! ((tail s + i) mod S)) [0..<flag_live S s]"


section \<open>Arithmetic without wrap-around\<close>

lemma size_t_limit_pos: "0 < size_t_limit"
  by (simp add: size_t_limit_def)

lemma sz_add_small: "a + b < size_t_limit \<Longrightarrow> sz_add a b = a + b"
  by (simp add: sz_add_def)

lemma sz_sub_small:
  assumes "b \<le> a" "a < size_t_limit"
  shows "sz_sub a b = a - b"
proof -
  have "a + size_t_limit - b = (a - b) + size_t_limit"
    using assms by simp
  then have "sz_sub a b = ((a - b) + size_t_limit) mod size_t_limit"
    by (simp only: sz_sub_def)
  also have "\<dots> = (a - b) mod size_t_limit"
    by (simp only: mod_add_self2)
  also have "\<dots> = a - b"
    using assms by (intro mod_less) simp
  finally show ?thesis .
qed

lemma sz_sub_wrapped:
  assumes "b \<le> x" "x - b < size_t_limit" "b < size_t_limit"
  shows "sz_sub (x mod size_t_limit) b = x - b"
proof -
  obtain y where x: "x = y + b" and y: "y < size_t_limit"
    using assms by (metis le_add_diff_inverse2)
  have "x mod size_t_limit + size_t_limit - b = x mod size_t_limit + (size_t_limit - b)"
    using assms by simp
  then have "sz_sub (x mod size_t_limit) b
               = (x mod size_t_limit + (size_t_limit - b)) mod size_t_limit"
    by (simp only: sz_sub_def)
  also have "\<dots> = (x + (size_t_limit - b)) mod size_t_limit"
    by (simp add: mod_add_left_eq)
  also have "x + (size_t_limit - b) = y + size_t_limit"
    using assms x by simp
  also have "(y + size_t_limit) mod size_t_limit = y"
    using y by simp
  also have "y = x - b"
    using x by simp
  finally show ?thesis .
qed

lemma mod_wrap_once: "x < 2 * n \<Longrightarrow> x mod n = (if x < n then x else x - n)" for x n :: nat
proof (cases "x < n")
  case True
  then show ?thesis by simp
next
  case False
  assume "x < 2 * n"
  with False have "x - n < n" "n \<le> x" by auto
  then have "x mod n = x - n" by (simp add: le_mod_geq)
  with False show ?thesis by simp
qed

section \<open>GuardElemRingBuffer refines the queue\<close>

lemma GuardElem_true_capacity_eq:
  "S + 1 < size_t_limit \<Longrightarrow> GuardElem_true_capacity S = S + 1"
  by (simp add: GuardElem_true_capacity_def sz_add_small)

lemma GuardElem_idx_increment_eq:
  "S + 1 < size_t_limit \<Longrightarrow> idx \<le> S \<Longrightarrow>
   GuardElem_idx_increment S idx = (if idx = S then 0 else idx + 1)"
  by (simp add: GuardElem_idx_increment_def GuardElem_true_capacity_eq sz_add_small)

lemma guard_live_eq:
  "guard_inv S s \<Longrightarrow>
   guard_live S s = (if tail s \<le> head s then head s - tail s else head s + (S + 1) - tail s)"
proof -
  assume "guard_inv S s"
  then have "head s + (S + 1) - tail s < 2 * (S + 1)" "head s \<le> S" "tail s \<le> S"
    by (auto simp: guard_inv_def)
  then show ?thesis
    unfolding guard_live_def by (subst mod_wrap_once) auto
qed

lemma guard_inv_init: "S + 1 < size_t_limit \<Longrightarrow> guard_inv S (GuardElem_init S d)"
  by (simp add: guard_inv_def GuardElem_init_def GuardElem_true_capacity_eq)

lemma guard_contents_init: "guard_contents S (GuardElem_init S d) = []"
  by (simp add: guard_contents_def guard_live_def GuardElem_init_def)

lemma guard_length_contents: "length (guard_contents S s) = guard_live S s"
  by (simp add: guard_contents_def)

lemma guard_live_le: "guard_inv S s \<Longrightarrow> guard_live S s \<le> S"
  by (auto simp: guard_live_eq guard_inv_def)

lemma GuardElem_full_iff:
  "S + 1 < size_t_limit \<Longrightarrow> guard_inv S s \<Longrightarrow> GuardElem_full S s \<longleftrightarrow> guard_live S s = S"
  by (auto simp: GuardElem_full_def guard_live_eq GuardElem_idx_increment_eq guard_inv_def)

lemma GuardElem_empty_iff:
  "guard_inv S s \<Longrightarrow> GuardElem_empty s \<longleftrightarrow> guard_live S s = 0"
  by (auto simp: GuardElem_empty_def guard_live_eq guard_inv_def)

lemma GuardElem_size_eq:
  assumes "S + 1 < size_t_limit" "guard_inv S s"
  shows "GuardElem_size S s = guard_live S s"
proof (cases "GuardElem_full S s")
  case True
  then show ?thesis using assms by (simp add: GuardElem_size_def capacity_def GuardElem_full_iff)
next
  case nf: False
  show ?thesis
  proof (cases "tail s \<le> head s")
    case True
    then show ?thesis using nf assms
      by (simp add: GuardElem_size_def guard_live_eq sz_sub_small guard_inv_def)
  next
    case False
    have "sz_sub ((S + 1 + head s) mod size_t_limit) (tail s) = S + 1 + head s - tail s"
      using False assms by (intro sz_sub_wrapped) (auto simp: guard_inv_def)
    then show ?thesis using nf False assms
      by (simp add: GuardElem_size_def guard_live_eq GuardElem_true_capacity_eq sz_add_def)
  qed
qed

lemma guard_contents_alt:
  assumes "guard_inv S s"
  shows "guard_contents S s =
           map (\<lambda>i. guard_buf s ! (if tail s + i \<le> S then tail s + i else tail s + i - (S + 1)))
               [0..<(if tail s \<le> head s then head s - tail s else head s + (S + 1) - tail s)]"
proof -
  have "(tail s + i) mod (S + 1) = (if tail s + i \<le> S then tail s + i else tail s + i - (S + 1))"
    if "i < guard_live S s" for i
  proof -
    have "i \<le> S" using that guard_live_le [OF assms] by simp
    moreover have "tail s \<le> S" using assms by (simp add: guard_inv_def)
    ultimately have "tail s + i < 2 * (S + 1)" by simp
    then show ?thesis by (subst mod_wrap_once) auto
  qed
  then have "guard_contents S s =
      map (\<lambda>i. guard_buf s ! (if tail s + i \<le> S then tail s + i else tail s + i - (S + 1)))
          [0..<guard_live S s]"
    unfolding guard_contents_def by (intro map_cong) auto
  then show ?thesis
    by (simp only: guard_live_eq [OF assms])
qed

lemma GuardElem_write_eq:
  assumes "S + 1 < size_t_limit" "guard_inv S s"
  shows "GuardElem_write S v s =
           \<lparr>head = (if head s = S then 0 else head s + 1),
            tail = (if guard_live S s = S then (if tail s = S then 0 else tail s + 1) else tail s),
            guard_buf = (guard_buf s)[head s := v]\<rparr>"
proof -
  let ?s1 = "s\<lparr>guard_buf := (guard_buf s)[head s := v]\<rparr>"
  have inv1: "guard_inv S ?s1" using assms by (simp add: guard_inv_def)
  have live1: "guard_live S ?s1 = guard_live S s" by (simp add: guard_live_def)
  have full1: "GuardElem_full S ?s1 \<longleftrightarrow> guard_live S s = S"
    using GuardElem_full_iff [OF assms(1) inv1] live1 by simp
  have h: "head s \<le> S" and t: "tail s \<le> S" using assms by (simp_all add: guard_inv_def)
  show ?thesis
    using h t by (simp add: GuardElem_write_def Let_def full1 GuardElem_idx_increment_eq [OF assms(1)])
qed

lemma guard_inv_write:
  "S + 1 < size_t_limit \<Longrightarrow> guard_inv S s \<Longrightarrow> guard_inv S (GuardElem_write S v s)"
  by (simp add: GuardElem_write_eq) (simp add: guard_inv_def)

lemma GuardElem_read_eq:
  assumes "S + 1 < size_t_limit" "guard_inv S s"
  shows "GuardElem_read S s =
           (if head s = tail s then (None, s)
            else (Some (guard_buf s ! tail s),
                  s\<lparr>tail := (if tail s = S then 0 else tail s + 1)\<rparr>))"
  using assms
  by (simp add: GuardElem_read_def GuardElem_empty_def Let_def GuardElem_idx_increment_eq guard_inv_def)

lemma guard_inv_read:
  "S + 1 < size_t_limit \<Longrightarrow> guard_inv S s \<Longrightarrow> guard_inv S (snd (GuardElem_read S s))"
  by (simp add: GuardElem_read_eq) (simp add: guard_inv_def)

lemma guard_inv_clear: "guard_inv S s \<Longrightarrow> guard_inv S (GuardElem_clear s)"
  by (simp add: guard_inv_def GuardElem_clear_def)

lemma guard_contents_clear: "guard_contents S (GuardElem_clear s) = []"
  by (simp add: guard_contents_def guard_live_def GuardElem_clear_def)

lemma guard_contents_read:
  assumes "S + 1 < size_t_limit" "guard_inv S s"
  shows "GuardElem_read S s =
           (case guard_contents S s of
              [] \<Rightarrow> (None, s)
            | x # xs \<Rightarrow> (Some x, snd (GuardElem_read S s)))
         \<and> guard_contents S (snd (GuardElem_read S s)) = tl (guard_contents S s)"
proof (cases "head s = tail s")
  case True
  then have "guard_contents S s = []"
    by (simp add: guard_contents_def guard_live_def)
  then show ?thesis using True assms by (simp add: GuardElem_read_eq)
next
  case False
  let ?s' = "s\<lparr>tail := (if tail s = S then 0 else tail s + 1)\<rparr>"
  have rd: "GuardElem_read S s = (Some (guard_buf s ! tail s), ?s')"
    using False assms by (simp add: GuardElem_read_eq)
  have inv': "guard_inv S ?s'" using assms by (simp add: guard_inv_def)
  have h: "head s \<le> S" and t: "tail s \<le> S" using assms by (simp_all add: guard_inv_def)
  have tl: "guard_contents S ?s' = tl (guard_contents S s)"
    unfolding guard_contents_alt [OF inv'] guard_contents_alt [OF assms(2)]
    using h t False
    by (intro nth_equalityI) (auto simp: nth_tl simp del: upt_Suc)
  have hd: "guard_contents S s = guard_buf s ! tail s # tl (guard_contents S s)"
    unfolding guard_contents_alt [OF assms(2)]
    using h t False
    by (intro nth_equalityI) (auto simp: nth_tl nth_Cons simp del: upt_Suc split: nat.splits)
  show ?thesis
    using rd tl hd by (simp split: list.splits) (metis list.sel(1) list.distinct(1))
qed

lemma guard_contents_nth:
  assumes "guard_inv S s" "i < guard_live S s"
  shows "guard_contents S s ! i =
           guard_buf s ! (if tail s + i \<le> S then tail s + i else tail s + i - (S + 1))"
proof -
  have "i \<le> S" using assms guard_live_le [OF assms(1)] by simp
  moreover have "tail s \<le> S" using assms by (simp add: guard_inv_def)
  ultimately have "tail s + i < 2 * (S + 1)" by simp
  then have "(tail s + i) mod (S + 1) =
               (if tail s + i \<le> S then tail s + i else tail s + i - (S + 1))"
    by (subst mod_wrap_once) auto
  then show ?thesis
    using assms(2) by (simp add: guard_contents_def del: upt_Suc)
qed

lemma guard_live_write:
  assumes "S + 1 < size_t_limit" "1 \<le> S" "guard_inv S s"
  shows "guard_live S (GuardElem_write S v s) =
           (if guard_live S s = S then S else guard_live S s + 1)"
proof -
  have h: "head s \<le> S" and t: "tail s \<le> S"
    using assms by (simp_all add: guard_inv_def)
  have inv': "guard_inv S (GuardElem_write S v s)"
    using assms by (simp add: guard_inv_write)
  have wr: "head (GuardElem_write S v s) = (if head s = S then 0 else head s + 1)"
    "tail (GuardElem_write S v s) =
       (if guard_live S s = S then (if tail s = S then 0 else tail s + 1) else tail s)"
    by (simp_all add: GuardElem_write_eq [OF assms(1,3)])
  show ?thesis
    unfolding guard_live_eq [OF inv'] wr
    unfolding guard_live_eq [OF assms(3)]
    using h t assms(2) by (auto split: if_splits)
qed

lemma guard_contents_write:
  assumes "S + 1 < size_t_limit" "1 \<le> S" "guard_inv S s"
  shows "guard_contents S (GuardElem_write S v s) =
           (if length (guard_contents S s) = S then tl (guard_contents S s)
            else guard_contents S s) @ [v]"
proof (rule nth_equalityI)
  let ?s' = "GuardElem_write S v s"
  have inv': "guard_inv S ?s'" using assms by (simp add: guard_inv_write)
  have h: "head s \<le> S" and t: "tail s \<le> S" and l: "length (guard_buf s) = S + 1"
    using assms by (simp_all add: guard_inv_def)
  have live': "guard_live S ?s' = (if guard_live S s = S then S else guard_live S s + 1)"
    using assms by (rule guard_live_write)
  show len: "length (guard_contents S ?s') =
        length ((if length (guard_contents S s) = S then tl (guard_contents S s)
                 else guard_contents S s) @ [v])"
    using assms(2) by (simp add: guard_length_contents live')
  fix i
  assume "i < length (guard_contents S ?s')"
  then have i: "i < guard_live S ?s'" by (simp add: guard_length_contents)
  have lhs: "guard_contents S ?s' ! i =
               guard_buf ?s' ! (if tail ?s' + i \<le> S then tail ?s' + i else tail ?s' + i - (S + 1))"
    using inv' i by (rule guard_contents_nth)
  have wr: "tail ?s' = (if guard_live S s = S then (if tail s = S then 0 else tail s + 1) else tail s)"
      "guard_buf ?s' = (guard_buf s)[head s := v]"
    by (simp_all add: GuardElem_write_eq [OF assms(1,3)])
  show "guard_contents S ?s' ! i =
          ((if length (guard_contents S s) = S then tl (guard_contents S s)
            else guard_contents S s) @ [v]) ! i"
  proof (cases "guard_live S s = S")
    case full: True
    show ?thesis
    proof (cases "i = S - 1")
      case True
      have "(if tail ?s' + i \<le> S then tail ?s' + i else tail ?s' + i - (S + 1)) = head s"
        using full True h t assms(2) unfolding wr guard_live_eq [OF assms(3)]
        by (auto split: if_splits)
      then have "guard_contents S ?s' ! i = v"
        unfolding lhs wr using h l by simp
      then show ?thesis
        using full True assms(2) by (simp add: guard_length_contents nth_append)
    next
      case False
      then have i': "i + 1 < guard_live S s" using i live' full by simp
      have ne: "(if tail ?s' + i \<le> S then tail ?s' + i else tail ?s' + i - (S + 1)) \<noteq> head s"
        and eq: "(if tail ?s' + i \<le> S then tail ?s' + i else tail ?s' + i - (S + 1))
               = (if tail s + (i + 1) \<le> S then tail s + (i + 1) else tail s + (i + 1) - (S + 1))"
        using full i' h t assms(2) unfolding wr guard_live_eq [OF assms(3)]
        by (auto split: if_splits)
      have "guard_contents S ?s' ! i = guard_contents S s ! (i + 1)"
        unfolding lhs guard_contents_nth [OF assms(3) i'] using ne eq
        by (simp add: wr(2))
      moreover have "i < S - 1" using full i' by simp
      ultimately show ?thesis
        using full i' by (simp add: guard_length_contents nth_append nth_tl)
    qed
  next
    case nfull: False
    show ?thesis
    proof (cases "i = guard_live S s")
      case True
      have "(if tail ?s' + i \<le> S then tail ?s' + i else tail ?s' + i - (S + 1)) = head s"
        using nfull True h t assms(2) unfolding wr guard_live_eq [OF assms(3)]
        by (auto split: if_splits)
      then have "guard_contents S ?s' ! i = v"
        unfolding lhs wr using h l by simp
      then show ?thesis
        using nfull True by (simp add: guard_length_contents nth_append)
    next
      case False
      then have i': "i < guard_live S s" using i live' nfull by simp
      have ne: "(if tail ?s' + i \<le> S then tail ?s' + i else tail ?s' + i - (S + 1)) \<noteq> head s"
        and eq: "(if tail ?s' + i \<le> S then tail ?s' + i else tail ?s' + i - (S + 1))
               = (if tail s + i \<le> S then tail s + i else tail s + i - (S + 1))"
        using nfull i' h t assms(2) unfolding wr guard_live_eq [OF assms(3)]
        by (auto split: if_splits)
      have "guard_contents S ?s' ! i = guard_contents S s ! i"
        unfolding lhs guard_contents_nth [OF assms(3) i'] using ne eq
        by (simp add: wr(2))
      then show ?thesis
        using nfull i' by (simp add: guard_length_contents nth_append)
    qed
  qed
qed

section \<open>FullFlagRingBuffer refines the queue\<close>

lemma FullFlag_idx_increment_eq:
  "S < size_t_limit \<Longrightarrow> idx < S \<Longrightarrow>
   FullFlag_idx_increment S idx = (if idx + 1 = S then 0 else idx + 1)"
  by (simp add: FullFlag_idx_increment_def sz_add_small)

lemma flag_live_eq:
  assumes "flag_inv S s"
  shows "flag_live S s =
           (if flag_full s then S
            else if tail s \<le> head s then head s - tail s else head s + S - tail s)"
proof -
  have "head s + S - tail s < 2 * S" "head s < S" "tail s < S"
    using assms by (auto simp: flag_inv_def)
  then show ?thesis
    unfolding flag_live_def by (subst mod_wrap_once) auto
qed

lemma flag_inv_init: "1 \<le> S \<Longrightarrow> flag_inv S (FullFlag_init S d)"
  by (simp add: flag_inv_def FullFlag_init_def)

lemma flag_contents_init: "flag_contents S (FullFlag_init S d) = []"
  by (simp add: flag_contents_def flag_live_def FullFlag_init_def)

lemma flag_length_contents: "length (flag_contents S s) = flag_live S s"
  by (simp add: flag_contents_def)

lemma flag_live_le: "flag_inv S s \<Longrightarrow> flag_live S s \<le> S"
  by (auto simp: flag_live_eq flag_inv_def)

lemma FullFlag_full_iff:
  assumes "flag_inv S s"
  shows "FullFlag_full s \<longleftrightarrow> flag_live S s = S"
proof -
  have "head s < S" "tail s < S" using assms by (auto simp: flag_inv_def)
  then show ?thesis
    unfolding flag_live_eq [OF assms] FullFlag_full_def by auto
qed

lemma FullFlag_empty_iff:
  assumes "flag_inv S s"
  shows "FullFlag_empty s \<longleftrightarrow> flag_live S s = 0"
proof -
  have "head s < S" "tail s < S" using assms by (auto simp: flag_inv_def)
  then show ?thesis
    unfolding flag_live_eq [OF assms] FullFlag_empty_def by auto
qed

lemma FullFlag_size_eq:
  assumes "S < size_t_limit" "flag_inv S s"
  shows "FullFlag_size S s = flag_live S s"
proof (cases "flag_full s")
  case True
  then show ?thesis by (simp add: FullFlag_size_def flag_live_def)
next
  case nf: False
  have h: "head s < S" and t: "tail s < S" using assms by (auto simp: flag_inv_def)
  show ?thesis
  proof (cases "tail s \<le> head s")
    case True
    have "sz_sub (head s) (tail s) = head s - tail s"
      using True h assms(1) by (intro sz_sub_small) auto
    then show ?thesis using nf True
      by (simp add: FullFlag_size_def flag_live_eq [OF assms(2)])
  next
    case False
    have "sz_sub ((S + head s) mod size_t_limit) (tail s) = S + head s - tail s"
      using False assms(1) h t by (intro sz_sub_wrapped) auto
    then show ?thesis using nf False
      by (simp add: FullFlag_size_def flag_live_eq [OF assms(2)] sz_add_def)
  qed
qed

lemma FullFlag_write_eq:
  assumes "S < size_t_limit" "flag_inv S s"
  shows "FullFlag_write S v s =
           \<lparr>head = (if head s + 1 = S then 0 else head s + 1),
            tail = (if flag_full s then (if tail s + 1 = S then 0 else tail s + 1) else tail s),
            flag_buf = (flag_buf s)[head s := v],
            flag_full = ((if head s + 1 = S then 0 else head s + 1) =
               (if flag_full s then (if tail s + 1 = S then 0 else tail s + 1) else tail s))\<rparr>"
proof -
  have h: "head s < S" and t: "tail s < S" using assms by (simp_all add: flag_inv_def)
  show ?thesis
    using h t
    by (simp add: FullFlag_write_def Let_def FullFlag_full_def FullFlag_idx_increment_eq [OF assms(1)])
qed

lemma flag_inv_write:
  "S < size_t_limit \<Longrightarrow> flag_inv S s \<Longrightarrow> flag_inv S (FullFlag_write S v s)"
  by (simp add: FullFlag_write_eq) (auto simp: flag_inv_def)

lemma FullFlag_read_eq:
  assumes "S < size_t_limit" "flag_inv S s"
  shows "FullFlag_read S s =
           (if head s = tail s \<and> \<not> flag_full s then (None, s)
            else (Some (flag_buf s ! tail s),
                  s\<lparr>tail := (if tail s + 1 = S then 0 else tail s + 1), flag_full := False\<rparr>))"
  using assms
  by (simp add: FullFlag_read_def FullFlag_empty_def Let_def FullFlag_idx_increment_eq flag_inv_def)

lemma flag_inv_read:
  "S < size_t_limit \<Longrightarrow> flag_inv S s \<Longrightarrow> flag_inv S (snd (FullFlag_read S s))"
  by (simp add: FullFlag_read_eq) (auto simp: flag_inv_def)

lemma flag_inv_clear: "flag_inv S s \<Longrightarrow> flag_inv S (FullFlag_clear s)"
  by (simp add: flag_inv_def FullFlag_clear_def)

lemma flag_contents_clear: "flag_contents S (FullFlag_clear s) = []"
  by (simp add: flag_contents_def flag_live_def FullFlag_clear_def)

lemma flag_contents_nth:
  assumes "flag_inv S s" "i < flag_live S s"
  shows "flag_contents S s ! i =
           flag_buf s ! (if tail s + i < S then tail s + i else tail s + i - S)"
proof -
  have "i < S" using assms flag_live_le [OF assms(1)] by simp
  moreover have "tail s < S" using assms by (simp add: flag_inv_def)
  ultimately have "tail s + i < 2 * S" by simp
  then have "(tail s + i) mod S = (if tail s + i < S then tail s + i else tail s + i - S)"
    by (rule mod_wrap_once)
  then show ?thesis
    using assms(2) by (simp add: flag_contents_def del: upt_Suc)
qed

lemma flag_contents_read:
  assumes "S < size_t_limit" "flag_inv S s"
  shows "FullFlag_read S s =
           (case flag_contents S s of
              [] \<Rightarrow> (None, s)
            | x # xs \<Rightarrow> (Some x, snd (FullFlag_read S s)))
         \<and> flag_contents S (snd (FullFlag_read S s)) = tl (flag_contents S s)"
proof (cases "FullFlag_empty s")
  case True
  then have "flag_contents S s = []"
    using FullFlag_empty_iff [OF assms(2)] flag_length_contents [of S s] by simp
  then show ?thesis using True by (simp add: FullFlag_read_def)
next
  case False
  let ?s' = "snd (FullFlag_read S s)"
  have ne: "\<not> (head s = tail s \<and> \<not> flag_full s)"
    using False by (simp add: FullFlag_empty_def)
  have rd0: "FullFlag_read S s =
      (Some (flag_buf s ! tail s),
       s\<lparr>tail := (if tail s + 1 = S then 0 else tail s + 1), flag_full := False\<rparr>)"
    using ne assms by (simp add: FullFlag_read_eq)
  have rd: "FullFlag_read S s = (Some (flag_buf s ! tail s), ?s')"
    by (simp add: rd0)
  have sel: "head ?s' = head s" "tail ?s' = (if tail s + 1 = S then 0 else tail s + 1)"
    "flag_full ?s' = False" "flag_buf ?s' = flag_buf s"
    by (simp_all add: rd0)
  have inv': "flag_inv S ?s'" using assms by (rule flag_inv_read)
  have h: "head s < S" and t: "tail s < S" and f: "flag_full s \<longrightarrow> head s = tail s"
    using assms by (simp_all add: flag_inv_def)
  have pos: "0 < flag_live S s"
    using False FullFlag_empty_iff [OF assms(2)] by simp
  have live': "flag_live S ?s' = flag_live S s - 1"
  proof -
    have a: "flag_live S ?s' =
               (if tail ?s' \<le> head ?s' then head ?s' - tail ?s' else head ?s' + S - tail ?s')"
      using flag_live_eq [OF inv'] sel by simp
    have b: "flag_live S s =
               (if flag_full s then S
                else if tail s \<le> head s then head s - tail s else head s + S - tail s)"
      by (rule flag_live_eq [OF assms(2)])
    show ?thesis
    proof (cases "flag_full s")
      case True
      then show ?thesis unfolding a b sel using h t f by (auto split: if_splits)
    next
      case False
      then show ?thesis unfolding a b sel using h t ne by (auto split: if_splits)
    qed
  qed
  have tl: "flag_contents S ?s' = tl (flag_contents S s)"
  proof (rule nth_equalityI)
    show "length (flag_contents S ?s') = length (tl (flag_contents S s))"
      by (simp add: flag_length_contents live')
    fix i
    assume "i < length (flag_contents S ?s')"
    then have i: "i < flag_live S ?s'" by (simp add: flag_length_contents)
    then have i': "i + 1 < flag_live S s" using live' by simp
    have "(if tail ?s' + i < S then tail ?s' + i else tail ?s' + i - S)
            = (if tail s + (i + 1) < S then tail s + (i + 1) else tail s + (i + 1) - S)"
      unfolding sel using t i' flag_live_le [OF assms(2)] by (auto split: if_splits)
    then have "flag_contents S ?s' ! i = flag_contents S s ! (i + 1)"
      unfolding flag_contents_nth [OF inv' i] flag_contents_nth [OF assms(2) i']
      by (simp add: sel)
    then show "flag_contents S ?s' ! i = tl (flag_contents S s) ! i"
      using i' by (simp add: nth_tl flag_length_contents)
  qed
  have "flag_contents S s \<noteq> []"
    using pos flag_length_contents [of S s] by auto
  moreover have "flag_contents S s ! 0 = flag_buf s ! tail s"
    using flag_contents_nth [OF assms(2) pos] t by simp
  ultimately have hd: "flag_contents S s = flag_buf s ! tail s # tl (flag_contents S s)"
    by (cases "flag_contents S s") auto
  show ?thesis
  proof (cases "flag_contents S s")
    case Nil
    then show ?thesis using hd by simp
  next
    case (Cons x xs)
    then have "x = flag_buf s ! tail s" using hd by simp
    then show ?thesis using Cons rd tl by simp
  qed
qed

lemma flag_live_write:
  assumes "S < size_t_limit" "flag_inv S s"
  shows "flag_live S (FullFlag_write S v s) =
           (if flag_live S s = S then S else flag_live S s + 1)"
proof -
  let ?s' = "FullFlag_write S v s"
  have h: "head s < S" and t: "tail s < S" and f: "flag_full s \<longrightarrow> head s = tail s"
    using assms by (simp_all add: flag_inv_def)
  have inv': "flag_inv S ?s'"
    using assms by (simp add: flag_inv_write)
  have fl: "flag_full s \<longleftrightarrow> flag_live S s = S"
    using FullFlag_full_iff [OF assms(2)] by (simp add: FullFlag_full_def)
  have a: "flag_live S ?s' =
             (if flag_full ?s' then S
              else if tail ?s' \<le> head ?s' then head ?s' - tail ?s' else head ?s' + S - tail ?s')"
    by (rule flag_live_eq [OF inv'])
  have b: "flag_live S s =
             (if flag_full s then S
              else if tail s \<le> head s then head s - tail s else head s + S - tail s)"
    by (rule flag_live_eq [OF assms(2)])
  show ?thesis
  proof (cases "flag_full s")
    case True
    then have "flag_full ?s'"
      using f by (simp add: FullFlag_write_eq [OF assms])
    then show ?thesis using True fl a by simp
  next
    case False
    then have wr: "head ?s' = (if head s + 1 = S then 0 else head s + 1)"
      "tail ?s' = tail s"
      "flag_full ?s' = ((if head s + 1 = S then 0 else head s + 1) = tail s)"
      by (simp_all add: FullFlag_write_eq [OF assms])
    have ns: "flag_live S s \<noteq> S" using False fl by simp
    have b': "flag_live S s = (if tail s \<le> head s then head s - tail s else head s + S - tail s)"
      using b False by simp
    show ?thesis
    proof (cases "head s + 1 = S")
      case True
      then show ?thesis unfolding a wr using ns h t unfolding b' by auto
    next
      case False
      then show ?thesis unfolding a wr using ns h t unfolding b' by auto
    qed
  qed
qed

lemma flag_contents_write:
  assumes "S < size_t_limit" "flag_inv S s"
  shows "flag_contents S (FullFlag_write S v s) =
           (if length (flag_contents S s) = S then tl (flag_contents S s)
            else flag_contents S s) @ [v]"
proof (rule nth_equalityI)
  let ?s' = "FullFlag_write S v s"
  have inv': "flag_inv S ?s'" using assms by (simp add: flag_inv_write)
  have h: "head s < S" and t: "tail s < S" and l: "length (flag_buf s) = S"
    and f: "flag_full s \<longrightarrow> head s = tail s"
    using assms by (simp_all add: flag_inv_def)
  have live': "flag_live S ?s' = (if flag_live S s = S then S else flag_live S s + 1)"
    using assms by (rule flag_live_write)
  have fl: "flag_full s \<longleftrightarrow> flag_live S s = S"
    using FullFlag_full_iff [OF assms(2)] by (simp add: FullFlag_full_def)
  show len: "length (flag_contents S ?s') =
        length ((if length (flag_contents S s) = S then tl (flag_contents S s)
                 else flag_contents S s) @ [v])"
    using h by (simp add: flag_length_contents live')
  fix i
  assume "i < length (flag_contents S ?s')"
  then have i: "i < flag_live S ?s'" by (simp add: flag_length_contents)
  have lhs: "flag_contents S ?s' ! i =
               flag_buf ?s' ! (if tail ?s' + i < S then tail ?s' + i else tail ?s' + i - S)"
    using inv' i by (rule flag_contents_nth)
  have wr: "tail ?s' = (if flag_full s then (if tail s + 1 = S then 0 else tail s + 1) else tail s)"
      "flag_buf ?s' = (flag_buf s)[head s := v]"
    by (simp_all add: FullFlag_write_eq [OF assms])
  show "flag_contents S ?s' ! i =
          ((if length (flag_contents S s) = S then tl (flag_contents S s)
            else flag_contents S s) @ [v]) ! i"
  proof (cases "flag_live S s = S")
    case full: True
    then have ff: "flag_full s" and ht: "head s = tail s" using fl f by auto
    show ?thesis
    proof (cases "i = S - 1")
      case True
      have "(if tail ?s' + i < S then tail ?s' + i else tail ?s' + i - S) = head s"
        using ff ht True h t unfolding wr
        by (auto split: if_splits)
      then have "flag_contents S ?s' ! i = v"
        unfolding lhs wr using h l by simp
      then show ?thesis
        using full True h by (simp add: flag_length_contents nth_append)
    next
      case False
      then have i': "i + 1 < flag_live S s" using i live' full by simp
      have ne: "(if tail ?s' + i < S then tail ?s' + i else tail ?s' + i - S) \<noteq> head s"
        and eq: "(if tail ?s' + i < S then tail ?s' + i else tail ?s' + i - S)
               = (if tail s + (i + 1) < S then tail s + (i + 1) else tail s + (i + 1) - S)"
        using ff ht full i' h t unfolding wr
        by (auto split: if_splits)
      have "flag_contents S ?s' ! i = flag_contents S s ! (i + 1)"
        unfolding lhs flag_contents_nth [OF assms(2) i'] using ne eq
        by (simp add: wr(2))
      moreover have "i < S - 1" using full i' by simp
      ultimately show ?thesis
        using full i' by (simp add: flag_length_contents nth_append nth_tl)
    qed
  next
    case nfull: False
    then have nff: "\<not> flag_full s" using fl by simp
    show ?thesis
    proof (cases "i = flag_live S s")
      case True
      have "(if tail ?s' + i < S then tail ?s' + i else tail ?s' + i - S) = head s"
        using nff True h t unfolding wr flag_live_eq [OF assms(2)]
        by (auto split: if_splits)
      then have "flag_contents S ?s' ! i = v"
        unfolding lhs wr using h l by simp
      then show ?thesis
        using nfull True by (simp add: flag_length_contents nth_append)
    next
      case False
      then have i': "i < flag_live S s" using i live' nfull by simp
      have ne: "(if tail ?s' + i < S then tail ?s' + i else tail ?s' + i - S) \<noteq> head s"
        and eq: "(if tail ?s' + i < S then tail ?s' + i else tail ?s' + i - S)
               = (if tail s + i < S then tail s + i else tail s + i - S)"
        using nff i' h t unfolding wr flag_live_eq [OF assms(2)]
        by (auto split: if_splits)
      have "flag_contents S ?s' ! i = flag_contents S s ! i"
        unfolding lhs flag_contents_nth [OF assms(2) i'] using ne eq
        by (simp add: wr(2))
      then show ?thesis
        using nfull i' by (simp add: flag_length_contents nth_append)
    qed
  qed
qed

section \<open>Call sequences\<close>

lemma guard_call_spec:
  assumes "1 \<le> C" "C + 1 < size_t_limit" "guard_inv C s"
  shows "spec_call C c (guard_contents C s) =
           (fst (GuardElem_call C c s), guard_contents C (snd (GuardElem_call C c s)))"
    and "guard_inv C (snd (GuardElem_call C c s))"
proof -
  have len: "length (guard_contents C s) = guard_live C s"
    by (rule guard_length_contents)
  have nil: "guard_contents C s = [] \<longleftrightarrow> guard_live C s = 0"
    using len by auto
  show "spec_call C c (guard_contents C s) =
           (fst (GuardElem_call C c s), guard_contents C (snd (GuardElem_call C c s)))"
  proof (cases c)
    case CallRead
    then show ?thesis
      using guard_contents_read [OF assms(2,3)]
      by (cases "guard_contents C s") (auto split: prod.splits)
  next
    case (CallWrite v)
    then show ?thesis by (simp add: guard_contents_write [OF assms(2,1,3)])
  next
    case CallClear
    then show ?thesis by (simp add: guard_contents_clear)
  next
    case CallFull
    then show ?thesis by (simp add: GuardElem_full_iff [OF assms(2,3)] len)
  next
    case CallEmpty
    then show ?thesis by (simp add: GuardElem_empty_iff [OF assms(3)] nil)
  next
    case CallSize
    then show ?thesis by (simp add: GuardElem_size_eq [OF assms(2,3)] len)
  next
    case CallCapacity
    then show ?thesis by (simp add: capacity_def)
  qed
  show "guard_inv C (snd (GuardElem_call C c s))"
    using assms(2,3)
    by (cases c)
       (simp_all add: guard_inv_write guard_inv_clear guard_inv_read case_prod_unfold Let_def)
qed

lemma guard_calls_spec:
  assumes "1 \<le> C" "C + 1 < size_t_limit" "guard_inv C s"
  shows "spec_calls C cs (guard_contents C s) =
           (fst (GuardElem_calls C cs s), guard_contents C (snd (GuardElem_calls C cs s)))
         \<and> guard_inv C (snd (GuardElem_calls C cs s))"
  using assms(3)
proof (induction cs arbitrary: s)
  case Nil
  then show ?case by simp
next
  case (Cons c cs)
  let ?s1 = "snd (GuardElem_call C c s)"
  have a: "spec_call C c (guard_contents C s) = (fst (GuardElem_call C c s), guard_contents C ?s1)"
    and b: "guard_inv C ?s1"
    using guard_call_spec [OF assms(1,2) Cons.prems] by auto
  show ?case
    using Cons.IH [OF b] a by (simp add: case_prod_unfold Let_def)
qed

lemma flag_call_spec:
  assumes "C < size_t_limit" "flag_inv C s"
  shows "spec_call C c (flag_contents C s) =
           (fst (FullFlag_call C c s), flag_contents C (snd (FullFlag_call C c s)))"
    and "flag_inv C (snd (FullFlag_call C c s))"
proof -
  have len: "length (flag_contents C s) = flag_live C s"
    by (rule flag_length_contents)
  have nil: "flag_contents C s = [] \<longleftrightarrow> flag_live C s = 0"
    using len by auto
  show "spec_call C c (flag_contents C s) =
           (fst (FullFlag_call C c s), flag_contents C (snd (FullFlag_call C c s)))"
  proof (cases c)
    case CallRead
    then show ?thesis
      using flag_contents_read [OF assms]
      by (cases "flag_contents C s") (auto split: prod.splits)
  next
    case (CallWrite v)
    then show ?thesis by (simp add: flag_contents_write [OF assms])
  next
    case CallClear
    then show ?thesis by (simp add: flag_contents_clear)
  next
    case CallFull
    then show ?thesis by (simp add: FullFlag_full_iff [OF assms(2)] len)
  next
    case CallEmpty
    then show ?thesis by (simp add: FullFlag_empty_iff [OF assms(2)] nil)
  next
    case CallSize
    then show ?thesis by (simp add: FullFlag_size_eq [OF assms] len)
  next
    case CallCapacity
    then show ?thesis by (simp add: capacity_def)
  qed
  show "flag_inv C (snd (FullFlag_call C c s))"
    using assms
    by (cases c)
       (simp_all add: flag_inv_write flag_inv_clear flag_inv_read case_prod_unfold Let_def)
qed

lemma flag_calls_spec:
  assumes "C < size_t_limit" "flag_inv C s"
  shows "spec_calls C cs (flag_contents C s) =
           (fst (FullFlag_calls C cs s), flag_contents C (snd (FullFlag_calls C cs s)))
         \<and> flag_inv C (snd (FullFlag_calls C cs s))"
  using assms(2)
proof (induction cs arbitrary: s)
  case Nil
  then show ?case by simp
next
  case (Cons c cs)
  let ?s1 = "snd (FullFlag_call C c s)"
  have a: "spec_call C c (flag_contents C s) = (fst (FullFlag_call C c s), flag_contents C ?s1)"
    and b: "flag_inv C ?s1"
    using flag_call_spec [OF assms(1) Cons.prems] by auto
  show ?case
    using Cons.IH [OF b] a by (simp add: case_prod_unfold Let_def)
qed

lemma GuardElem_calls_append:
  "GuardElem_calls S (xs @ ys) s =
     (fst (GuardElem_calls S xs s) @ fst (GuardElem_calls S ys (snd (GuardElem_calls S xs s))),
      snd (GuardElem_calls S ys (snd (GuardElem_calls S xs s))))"
  by (induction xs arbitrary: s) (simp_all add: case_prod_unfold Let_def)

lemma FullFlag_calls_append:
  "FullFlag_calls S (xs @ ys) s =
     (fst (FullFlag_calls S xs s) @ fst (FullFlag_calls S ys (snd (FullFlag_calls S xs s))),
      snd (FullFlag_calls S ys (snd (FullFlag_calls S xs s))))"
  by (induction xs arbitrary: s) (simp_all add: case_prod_unfold Let_def)

lemma spec_calls_append:
  "spec_calls C (xs @ ys) q =
     (fst (spec_calls C xs q) @ fst (spec_calls C ys (snd (spec_calls C xs q))),
      snd (spec_calls C ys (snd (spec_calls C xs q))))"
  by (induction xs arbitrary: q) (simp_all add: case_prod_unfold Let_def)

lemma spec_calls_length: "length (snd (spec_calls C cs q)) \<le> C" if "length q \<le> C" "1 \<le> C"
  using that
proof (induction cs arbitrary: q)
  case Nil
  then show ?case by simp
next
  case (Cons c cs)
  have "length (snd (spec_call C c q)) \<le> C"
    using Cons.prems by (cases c) (auto split: list.splits)
  then show ?case
    using Cons.IH [of "snd (spec_call C c q)"] Cons.prems(2)
    by (simp add: case_prod_unfold Let_def)
qed

lemma spec_calls_writes:
  assumes "1 \<le> C" "length q \<le> C"
  shows "spec_calls C (map CallWrite vs) q =
           (replicate (length vs) RetVoid, drop (length (q @ vs) - C) (q @ vs))"
  using assms(2)
proof (induction vs arbitrary: q)
  case Nil
  then show ?case by simp
next
  case (Cons v vs)
  let ?q' = "(if length q = C then tl q else q) @ [v]"
  have len: "length ?q' \<le> C" using Cons.prems assms(1) by auto
  have "drop (length (?q' @ vs) - C) (?q' @ vs) = drop (length (q @ v # vs) - C) (q @ v # vs)"
  proof (cases "length q = C")
    case True
    then obtain x xs where q: "q = x # xs" using assms(1) by (cases q) auto
    have "length (q @ v # vs) - C = Suc (length (?q' @ vs) - C)"
      using True q by simp
    then show ?thesis using True q by simp
  next
    case False
    then show ?thesis by simp
  qed
  then show ?case
    using Cons.IH [OF len] by (simp add: replicate_append_same)
qed

lemma spec_calls_reads:
  "n \<le> length q \<Longrightarrow>
   spec_calls C (replicate n CallRead) q = (map (\<lambda>v. RetOptional (Some v)) (take n q), drop n q)"
proof (induction n arbitrary: q)
  case 0
  then show ?case by simp
next
  case (Suc n)
  then obtain x xs where q: "q = x # xs" by (cases q) auto
  then have "n \<le> length xs" using Suc.prems by simp
  then show ?case using Suc.IH [of xs] q by simp
qed

lemma guard_after_spec:
  assumes "1 \<le> C" "C + 1 < size_t_limit"
  shows "guard_inv C (GuardElem_after C cs d)"
    and "guard_contents C (GuardElem_after C cs d) = spec_after C cs"
    and "fst (GuardElem_calls C cs (GuardElem_init C d)) = fst (spec_calls C cs [])"
  using guard_calls_spec [OF assms guard_inv_init [OF assms(2)], of cs d]
  by (simp_all add: GuardElem_after_def spec_after_def guard_contents_init)

lemma flag_after_spec:
  assumes "1 \<le> C" "C < size_t_limit"
  shows "flag_inv C (FullFlag_after C cs d)"
    and "flag_contents C (FullFlag_after C cs d) = spec_after C cs"
    and "fst (FullFlag_calls C cs (FullFlag_init C d)) = fst (spec_calls C cs [])"
  using flag_calls_spec [OF assms(2) flag_inv_init [OF assms(1)], of cs d]
  by (simp_all add: FullFlag_after_def spec_after_def flag_contents_init)

lemma spec_after_append:
  "spec_after C (xs @ ys) = snd (spec_calls C ys (spec_after C xs))"
  by (simp add: spec_after_def spec_calls_append)

lemma spec_after_length: "1 \<le> C \<Longrightarrow> length (spec_after C cs) \<le> C"
  unfolding spec_after_def by (rule spec_calls_length) simp_all

lemma GuardElem_after_append:
  "GuardElem_after S (xs @ ys) d = snd (GuardElem_calls S ys (GuardElem_after S xs d))"
  by (simp add: GuardElem_after_def GuardElem_calls_append)

lemma FullFlag_after_append:
  "FullFlag_after S (xs @ ys) d = snd (FullFlag_calls S ys (FullFlag_after S xs d))"
  by (simp add: FullFlag_after_def FullFlag_calls_append)

text \<open>What a sequence of calls on a reachable state returns, read off the queue.\<close>

lemma guard_calls_from_after:
  assumes "1 \<le> C" "C + 1 < size_t_limit"
  shows "fst (GuardElem_calls C cs (GuardElem_after C hist d)) =
           fst (spec_calls C cs (spec_after C hist))"
    and "guard_contents C (snd (GuardElem_calls C cs (GuardElem_after C hist d))) =
           snd (spec_calls C cs (spec_after C hist))"
  using guard_calls_spec [OF assms guard_after_spec(1) [OF assms], of cs hist d]
  by (simp_all add: guard_after_spec(2) [OF assms])

lemma flag_calls_from_after:
  assumes "1 \<le> C" "C < size_t_limit"
  shows "fst (FullFlag_calls C cs (FullFlag_after C hist d)) =
           fst (spec_calls C cs (spec_after C hist))"
    and "flag_contents C (snd (FullFlag_calls C cs (FullFlag_after C hist d))) =
           snd (spec_calls C cs (spec_after C hist))"
  using flag_calls_spec [OF assms(2) flag_after_spec(1) [OF assms], of cs hist d]
  by (simp_all add: flag_after_spec(2) [OF assms])

text \<open>The observers of a reachable state, read off the queue.\<close>

lemma guard_observers:
  assumes "1 \<le> C" "C + 1 < size_t_limit"
  shows "GuardElem_size C (GuardElem_after C cs d) = length (spec_after C cs)"
    and "GuardElem_full C (GuardElem_after C cs d) \<longleftrightarrow> length (spec_after C cs) = C"
    and "GuardElem_empty (GuardElem_after C cs d) \<longleftrightarrow> spec_after C cs = []"
proof -
  note inv = guard_after_spec(1) [OF assms, of cs d]
  note con = guard_after_spec(2) [OF assms, of cs d]
  have len: "guard_live C (GuardElem_after C cs d) = length (spec_after C cs)"
    using guard_length_contents [of C "GuardElem_after C cs d"] con by simp
  show "GuardElem_size C (GuardElem_after C cs d) = length (spec_after C cs)"
    by (simp add: GuardElem_size_eq [OF assms(2) inv] len)
  show "GuardElem_full C (GuardElem_after C cs d) \<longleftrightarrow> length (spec_after C cs) = C"
    by (simp add: GuardElem_full_iff [OF assms(2) inv] len)
  show "GuardElem_empty (GuardElem_after C cs d) \<longleftrightarrow> spec_after C cs = []"
    by (simp add: GuardElem_empty_iff [OF inv] len)
qed

lemma flag_observers:
  assumes "1 \<le> C" "C < size_t_limit"
  shows "FullFlag_size C (FullFlag_after C cs d) = length (spec_after C cs)"
    and "FullFlag_full (FullFlag_after C cs d) \<longleftrightarrow> length (spec_after C cs) = C"
    and "FullFlag_empty (FullFlag_after C cs d) \<longleftrightarrow> spec_after C cs = []"
proof -
  note inv = flag_after_spec(1) [OF assms, of cs d]
  note con = flag_after_spec(2) [OF assms, of cs d]
  have len: "flag_live C (FullFlag_after C cs d) = length (spec_after C cs)"
    using flag_length_contents [of C "FullFlag_after C cs d"] con by simp
  show "FullFlag_size C (FullFlag_after C cs d) = length (spec_after C cs)"
    by (simp add: FullFlag_size_eq [OF assms(2) inv] len)
  show "FullFlag_full (FullFlag_after C cs d) \<longleftrightarrow> length (spec_after C cs) = C"
    by (simp add: FullFlag_full_iff [OF inv] len)
  show "FullFlag_empty (FullFlag_after C cs d) \<longleftrightarrow> spec_after C cs = []"
    by (simp add: FullFlag_empty_iff [OF inv] len)
qed

section \<open>Writes and drains\<close>

lemma spec_after_writes:
  assumes "1 \<le> C"
  shows "spec_after C (hist @ map CallWrite vs) =
           drop (length (spec_after C hist @ vs) - C) (spec_after C hist @ vs)"
  using spec_calls_writes [OF assms spec_after_length [OF assms], where cs1 = hist and vs = vs]
  by (simp add: spec_after_append)

lemma spec_after_reads:
  "n \<le> length (spec_after C hist) \<Longrightarrow>
   spec_after C (hist @ replicate n CallRead) = drop n (spec_after C hist)"
  by (simp add: spec_after_append spec_calls_reads)

lemma guard_drain:
  assumes "1 \<le> C" "C + 1 < size_t_limit" "n \<le> length (spec_after C hist)"
  shows "fst (GuardElem_calls C (replicate n CallRead) (GuardElem_after C hist d)) =
           map (\<lambda>v. RetOptional (Some v)) (take n (spec_after C hist))"
  by (simp add: guard_calls_from_after(1) [OF assms(1,2)] spec_calls_reads [OF assms(3)])

lemma flag_drain:
  assumes "1 \<le> C" "C < size_t_limit" "n \<le> length (spec_after C hist)"
  shows "fst (FullFlag_calls C (replicate n CallRead) (FullFlag_after C hist d)) =
           map (\<lambda>v. RetOptional (Some v)) (take n (spec_after C hist))"
  by (simp add: flag_calls_from_after(1) [OF assms(1,2)] spec_calls_reads [OF assms(3)])

lemma spec_after_write:
  "spec_after C (hist @ [CallWrite v]) =
     (if length (spec_after C hist) = C then tl (spec_after C hist) else spec_after C hist) @ [v]"
  by (simp add: spec_after_append)

lemma spec_after_read:
  "spec_after C (hist @ [CallRead]) = tl (spec_after C hist)"
  by (cases "spec_after C hist") (simp_all add: spec_after_append)

lemma GuardElem_after_write:
  "GuardElem_after S (hist @ [CallWrite v]) d = GuardElem_write S v (GuardElem_after S hist d)"
  by (simp add: GuardElem_after_append)

lemma FullFlag_after_write:
  "FullFlag_after S (hist @ [CallWrite v]) d = FullFlag_write S v (FullFlag_after S hist d)"
  by (simp add: FullFlag_after_append)

lemma GuardElem_after_read:
  "GuardElem_after S (hist @ [CallRead]) d = snd (GuardElem_read S (GuardElem_after S hist d))"
  by (simp add: GuardElem_after_append case_prod_unfold Let_def)

lemma FullFlag_after_read:
  "FullFlag_after S (hist @ [CallRead]) d = snd (FullFlag_read S (FullFlag_after S hist d))"
  by (simp add: FullFlag_after_append case_prod_unfold Let_def)

lemma guard_after_in_bounds:
  assumes "1 \<le> C" "C + 1 < size_t_limit"
  shows "head (GuardElem_after C cs d) \<le> C"
    and "tail (GuardElem_after C cs d) \<le> C"
    and "length (guard_buf (GuardElem_after C cs d)) = C + 1"
  using guard_after_spec(1) [OF assms, of cs d] by (simp_all add: guard_inv_def)

lemma flag_after_in_bounds:
  assumes "1 \<le> C" "C < size_t_limit"
  shows "head (FullFlag_after C cs d) < C"
    and "tail (FullFlag_after C cs d) < C"
    and "length (flag_buf (FullFlag_after C cs d)) = C"
  using flag_after_spec(1) [OF assms, of cs d] by (simp_all add: flag_inv_def)

lemma spec_after_clear: "spec_after C (hist @ [CallClear]) = []"
  by (simp add: spec_after_append)

lemma GuardElem_after_clear:
  "GuardElem_after S (hist @ [CallClear]) d = GuardElem_clear (GuardElem_after S hist d)"
  by (simp add: GuardElem_after_append)

lemma FullFlag_after_clear:
  "FullFlag_after S (hist @ [CallClear]) d = FullFlag_clear (FullFlag_after S hist d)"
  by (simp add: FullFlag_after_append)

lemma guard_read_result:
  assumes "1 \<le> C" "C + 1 < size_t_limit"
  shows "fst (GuardElem_read C (GuardElem_after C hist d)) =
           (case spec_after C hist of [] \<Rightarrow> None | x # xs \<Rightarrow> Some x)"
  using guard_calls_from_after(1) [OF assms, of "[CallRead]" hist d]
  by (cases "spec_after C hist") (simp_all add: case_prod_unfold Let_def)

lemma flag_read_result:
  assumes "1 \<le> C" "C < size_t_limit"
  shows "fst (FullFlag_read C (FullFlag_after C hist d)) =
           (case spec_after C hist of [] \<Rightarrow> None | x # xs \<Rightarrow> Some x)"
  using flag_calls_from_after(1) [OF assms, of "[CallRead]" hist d]
  by (cases "spec_after C hist") (simp_all add: case_prod_unfold Let_def)

lemma spec_write_then_read:
  assumes "1 \<le> C" "length q \<le> C"
  shows "(case (if length q = C then tl q else q) @ [v] of [] \<Rightarrow> None | x # xs \<Rightarrow> Some x) =
           (if q = [] \<or> C = 1 then Some v
            else if length q = C then Some (q ! 1) else Some (q ! 0))"
proof (cases q)
  case Nil
  then show ?thesis using assms(1) by auto
next
  case (Cons x xs)
  show ?thesis
  proof (cases xs)
    case Nil
    then show ?thesis using Cons assms by auto
  next
    case (Cons y ys)
    then show ?thesis using \<open>q = x # xs\<close> assms by auto
  qed
qed

section \<open>The claims\<close>

text \<open>
  C1. For every nominal capacity \<open>C \<ge> 1\<close> (with \<open>C + 1\<close> representable in
  \<open>size_t\<close>) and every sequence \<open>vs\<close> of \<open>N \<le> C\<close> writes applied to an empty
  buffer of either class (freshly constructed, or empty again after any history of
  calls): \<open>size()\<close> returns \<open>N\<close>, \<open>full()\<close> returns true exactly when
  \<open>N = C\<close>, and \<open>N\<close> reads then return exactly the written values in write
  order and leave the buffer empty.
\<close>

theorem writes_within_capacity:
  assumes "1 \<le> C" and "C + 1 < size_t_limit" and "length vs \<le> C"
    and "GuardElem_empty (GuardElem_after C hg d)"
    and "FullFlag_empty (FullFlag_after C hf d)"
    and "g = GuardElem_after C (hg @ map CallWrite vs) d"
    and "f = FullFlag_after C (hf @ map CallWrite vs) d"
  shows "GuardElem_size C g = length vs
       \<and> (GuardElem_full C g \<longleftrightarrow> length vs = C)
       \<and> fst (GuardElem_calls C (replicate (length vs) CallRead) g) =
           map (\<lambda>v. RetOptional (Some v)) vs
       \<and> GuardElem_empty (snd (GuardElem_calls C (replicate (length vs) CallRead) g))
       \<and> FullFlag_size C f = length vs
       \<and> (FullFlag_full f \<longleftrightarrow> length vs = C)
       \<and> fst (FullFlag_calls C (replicate (length vs) CallRead) f) =
           map (\<lambda>v. RetOptional (Some v)) vs
       \<and> FullFlag_empty (snd (FullFlag_calls C (replicate (length vs) CallRead) f))"
proof -
  have lim: "C < size_t_limit" using assms(2) by simp
  have qg: "spec_after C hg = []"
    using assms(4) by (simp add: guard_observers(3) [OF assms(1,2)])
  have qf: "spec_after C hf = []"
    using assms(5) by (simp add: flag_observers(3) [OF assms(1) lim])
  have wg: "spec_after C (hg @ map CallWrite vs) = vs"
    using assms(3) by (simp add: spec_after_writes [OF assms(1)] qg)
  have wf: "spec_after C (hf @ map CallWrite vs) = vs"
    using assms(3) by (simp add: spec_after_writes [OF assms(1)] qf)
  have rg: "spec_after C ((hg @ map CallWrite vs) @ replicate (length vs) CallRead) = []"
    by (subst spec_after_reads) (simp_all add: wg)
  have rf: "spec_after C ((hf @ map CallWrite vs) @ replicate (length vs) CallRead) = []"
    by (subst spec_after_reads) (simp_all add: wf)
  have g1: "GuardElem_size C g = length vs"
    unfolding assms(6) by (simp add: guard_observers(1) [OF assms(1,2)] wg)
  have g2: "GuardElem_full C g \<longleftrightarrow> length vs = C"
    unfolding assms(6) by (simp add: guard_observers(2) [OF assms(1,2)] wg)
  have g3: "fst (GuardElem_calls C (replicate (length vs) CallRead) g) =
              map (\<lambda>v. RetOptional (Some v)) vs"
    unfolding assms(6) by (subst guard_drain [OF assms(1,2)]) (simp_all add: wg)
  have g4: "GuardElem_empty (snd (GuardElem_calls C (replicate (length vs) CallRead) g))"
    unfolding assms(6) GuardElem_after_append [symmetric]
    by (simp only: guard_observers(3) [OF assms(1,2)] rg)
  have f1: "FullFlag_size C f = length vs"
    unfolding assms(7) by (simp add: flag_observers(1) [OF assms(1) lim] wf)
  have f2: "FullFlag_full f \<longleftrightarrow> length vs = C"
    unfolding assms(7) by (simp add: flag_observers(2) [OF assms(1) lim] wf)
  have f3: "fst (FullFlag_calls C (replicate (length vs) CallRead) f) =
              map (\<lambda>v. RetOptional (Some v)) vs"
    unfolding assms(7) by (subst flag_drain [OF assms(1) lim]) (simp_all add: wf)
  have f4: "FullFlag_empty (snd (FullFlag_calls C (replicate (length vs) CallRead) f))"
    unfolding assms(7) FullFlag_after_append [symmetric]
    by (simp only: flag_observers(3) [OF assms(1) lim] rf)
  show ?thesis
    using g1 g2 g3 g4 f1 f2 f3 f4 by blast
qed

theorem writes_within_capacity_witness:
  "GuardElem_size 2 (GuardElem_after 2 ([CallWrite 9, CallRead] @ map CallWrite [5, 6]) (0::nat))
     = length [5, 6 :: nat]
   \<and> (GuardElem_full 2 (GuardElem_after 2 ([CallWrite 9, CallRead] @ map CallWrite [5, 6]) (0::nat))
        \<longleftrightarrow> length [5, 6 :: nat] = 2)
   \<and> fst (GuardElem_calls 2 (replicate (length [5, 6 :: nat]) CallRead)
            (GuardElem_after 2 ([CallWrite 9, CallRead] @ map CallWrite [5, 6]) (0::nat))) =
       map (\<lambda>v. RetOptional (Some v)) [5, 6]
   \<and> GuardElem_empty (snd (GuardElem_calls 2 (replicate (length [5, 6 :: nat]) CallRead)
            (GuardElem_after 2 ([CallWrite 9, CallRead] @ map CallWrite [5, 6]) (0::nat))))
   \<and> FullFlag_size 2 (FullFlag_after 2 ([] @ map CallWrite [5, 6]) (0::nat)) = length [5, 6 :: nat]
   \<and> (FullFlag_full (FullFlag_after 2 ([] @ map CallWrite [5, 6]) (0::nat))
        \<longleftrightarrow> length [5, 6 :: nat] = 2)
   \<and> fst (FullFlag_calls 2 (replicate (length [5, 6 :: nat]) CallRead)
            (FullFlag_after 2 ([] @ map CallWrite [5, 6]) (0::nat))) =
       map (\<lambda>v. RetOptional (Some v)) [5, 6]
   \<and> FullFlag_empty (snd (FullFlag_calls 2 (replicate (length [5, 6 :: nat]) CallRead)
            (FullFlag_after 2 ([] @ map CallWrite [5, 6]) (0::nat))))"
proof -
  have e1: "GuardElem_empty (GuardElem_after 2 [CallWrite 9, CallRead] (0::nat))"
    by (simp add: GuardElem_after_def GuardElem_init_def GuardElem_write_def GuardElem_read_def
        GuardElem_empty_def GuardElem_full_def GuardElem_idx_increment_def
        GuardElem_true_capacity_def sz_add_def size_t_limit_def Let_def)
  have e2: "FullFlag_empty (FullFlag_after 2 [] (0::nat))"
    by (simp add: FullFlag_after_def FullFlag_init_def FullFlag_empty_def)
  have c: "(1::nat) \<le> 2" by simp
  have l: "(2::nat) + 1 < size_t_limit" by (simp add: size_t_limit_def)
  have n: "length [5, 6 :: nat] \<le> 2" by simp
  show ?thesis
    by (rule writes_within_capacity [OF c l n e1 e2 refl refl])
qed

text \<open>
  C2. For every nominal capacity \<open>C \<ge> 1\<close> (with \<open>C + 1\<close> representable in
  \<open>size_t\<close>) and every sequence \<open>vs\<close> of \<open>N > C\<close> writes applied to an empty
  buffer of either class: afterwards \<open>size()\<close> returns \<open>C\<close> and \<open>C\<close> reads
  return exactly the last \<open>C\<close> written values in write order, starting from the
  \<open>(N - C + 1)\<close>-th write. A write into any reachable full buffer \<open>gF\<close>,
  \<open>fF\<close> stores at \<open>head\<close>, then advances \<open>tail\<close> by one position and then
  \<open>head\<close> by one position (the updates in the order of the source), and the drain
  afterwards is the previous drain without its oldest element, followed by the value
  written.
\<close>

theorem writes_beyond_capacity:
  assumes "1 \<le> C" and "C + 1 < size_t_limit" and "C < length vs"
    and "GuardElem_empty (GuardElem_after C hg d)"
    and "FullFlag_empty (FullFlag_after C hf d)"
    and "g = GuardElem_after C (hg @ map CallWrite vs) d"
    and "f = FullFlag_after C (hf @ map CallWrite vs) d"
    and "gF = GuardElem_after C kg d" and "GuardElem_full C gF"
    and "fF = FullFlag_after C kf d" and "FullFlag_full fF"
  shows "GuardElem_size C g = C
       \<and> fst (GuardElem_calls C (replicate C CallRead) g) =
           map (\<lambda>v. RetOptional (Some v)) (drop (length vs - C) vs)
       \<and> FullFlag_size C f = C
       \<and> fst (FullFlag_calls C (replicate C CallRead) f) =
           map (\<lambda>v. RetOptional (Some v)) (drop (length vs - C) vs)
       \<and> GuardElem_write C v gF =
            gF\<lparr>guard_buf := (guard_buf gF)[head gF := v],
               tail := GuardElem_idx_increment C (tail gF),
               head := GuardElem_idx_increment C (head gF)\<rparr>
       \<and> fst (GuardElem_calls C (replicate C CallRead) (GuardElem_write C v gF)) =
            tl (fst (GuardElem_calls C (replicate C CallRead) gF)) @ [RetOptional (Some v)]
       \<and> FullFlag_write C v fF =
            fF\<lparr>flag_buf := (flag_buf fF)[head fF := v],
               tail := FullFlag_idx_increment C (tail fF),
               head := FullFlag_idx_increment C (head fF),
               flag_full := (FullFlag_idx_increment C (head fF) = FullFlag_idx_increment C (tail fF))\<rparr>
       \<and> fst (FullFlag_calls C (replicate C CallRead) (FullFlag_write C v fF)) =
            tl (fst (FullFlag_calls C (replicate C CallRead) fF)) @ [RetOptional (Some v)]"
proof -
  have lim: "C < size_t_limit" using assms(2) by simp
  have qg: "spec_after C hg = []"
    using assms(4) by (simp add: guard_observers(3) [OF assms(1,2)])
  have qf: "spec_after C hf = []"
    using assms(5) by (simp add: flag_observers(3) [OF assms(1) lim])
  let ?last = "drop (length vs - C) vs"
  have wg: "spec_after C (hg @ map CallWrite vs) = ?last"
    by (simp add: spec_after_writes [OF assms(1)] qg)
  have wf: "spec_after C (hf @ map CallWrite vs) = ?last"
    by (simp add: spec_after_writes [OF assms(1)] qf)
  have g1: "GuardElem_size C g = C"
    unfolding assms(6) using assms(3) by (simp add: guard_observers(1) [OF assms(1,2)] wg)
  have g2: "fst (GuardElem_calls C (replicate C CallRead) g) =
              map (\<lambda>v. RetOptional (Some v)) ?last"
    unfolding assms(6) using assms(3) by (subst guard_drain [OF assms(1,2)]) (simp_all add: wg)
  have f1: "FullFlag_size C f = C"
    unfolding assms(7) using assms(3) by (simp add: flag_observers(1) [OF assms(1) lim] wf)
  have f2: "fst (FullFlag_calls C (replicate C CallRead) f) =
              map (\<lambda>v. RetOptional (Some v)) ?last"
    unfolding assms(7) using assms(3) by (subst flag_drain [OF assms(1) lim]) (simp_all add: wf)
  have g3: "GuardElem_write C v gF =
            gF\<lparr>guard_buf := (guard_buf gF)[head gF := v],
               tail := GuardElem_idx_increment C (tail gF),
               head := GuardElem_idx_increment C (head gF)\<rparr>"
    using assms(9) by (simp add: GuardElem_write_def GuardElem_full_def Let_def)
  have f3: "FullFlag_write C v fF =
            fF\<lparr>flag_buf := (flag_buf fF)[head fF := v],
               tail := FullFlag_idx_increment C (tail fF),
               head := FullFlag_idx_increment C (head fF),
               flag_full := (FullFlag_idx_increment C (head fF) = FullFlag_idx_increment C (tail fF))\<rparr>"
    using assms(11) by (simp add: FullFlag_write_def FullFlag_full_def Let_def)
  have g4: "fst (GuardElem_calls C (replicate C CallRead) (GuardElem_write C v gF)) =
            tl (fst (GuardElem_calls C (replicate C CallRead) gF)) @ [RetOptional (Some v)]"
  proof -
    let ?q = "spec_after C kg"
    have len: "length ?q = C"
      using assms(9) unfolding assms(8) by (simp add: guard_observers(2) [OF assms(1,2)])
    have a: "fst (GuardElem_calls C (replicate C CallRead) gF) = map (\<lambda>v. RetOptional (Some v)) ?q"
      unfolding assms(8) by (subst guard_drain [OF assms(1,2)]) (simp_all add: len)
    have w: "spec_after C (kg @ [CallWrite v]) = tl ?q @ [v]"
      by (simp add: spec_after_write len)
    have b: "fst (GuardElem_calls C (replicate C CallRead) (GuardElem_after C (kg @ [CallWrite v]) d)) =
               map (\<lambda>v. RetOptional (Some v)) (tl ?q @ [v])"
      using assms(1) by (subst guard_drain [OF assms(1,2)]) (simp_all add: w len)
    have "tl (fst (GuardElem_calls C (replicate C CallRead) gF)) @ [RetOptional (Some v)] =
            map (\<lambda>v. RetOptional (Some v)) (tl ?q @ [v])"
      by (simp add: a map_tl)
    moreover have "fst (GuardElem_calls C (replicate C CallRead) (GuardElem_write C v gF)) =
            map (\<lambda>v. RetOptional (Some v)) (tl ?q @ [v])"
      using b by (simp only: assms(8) GuardElem_after_write)
    ultimately show ?thesis by simp
  qed
  have f4: "fst (FullFlag_calls C (replicate C CallRead) (FullFlag_write C v fF)) =
            tl (fst (FullFlag_calls C (replicate C CallRead) fF)) @ [RetOptional (Some v)]"
  proof -
    let ?q = "spec_after C kf"
    have len: "length ?q = C"
      using assms(11) unfolding assms(10) by (simp add: flag_observers(2) [OF assms(1) lim])
    have a: "fst (FullFlag_calls C (replicate C CallRead) fF) = map (\<lambda>v. RetOptional (Some v)) ?q"
      unfolding assms(10) by (subst flag_drain [OF assms(1) lim]) (simp_all add: len)
    have w: "spec_after C (kf @ [CallWrite v]) = tl ?q @ [v]"
      by (simp add: spec_after_write len)
    have b: "fst (FullFlag_calls C (replicate C CallRead) (FullFlag_after C (kf @ [CallWrite v]) d)) =
               map (\<lambda>v. RetOptional (Some v)) (tl ?q @ [v])"
      using assms(1) by (subst flag_drain [OF assms(1) lim]) (simp_all add: w len)
    have "tl (fst (FullFlag_calls C (replicate C CallRead) fF)) @ [RetOptional (Some v)] =
            map (\<lambda>v. RetOptional (Some v)) (tl ?q @ [v])"
      by (simp add: a map_tl)
    moreover have "fst (FullFlag_calls C (replicate C CallRead) (FullFlag_write C v fF)) =
            map (\<lambda>v. RetOptional (Some v)) (tl ?q @ [v])"
      using b by (simp only: assms(10) FullFlag_after_write)
    ultimately show ?thesis by simp
  qed
  show ?thesis
    using g1 g2 f1 f2 g3 g4 f3 f4 by blast
qed

theorem writes_beyond_capacity_witness:
  "GuardElem_size 2 (GuardElem_after 2 ([] @ map CallWrite [1, 2, 3]) (0::nat)) = 2
   \<and> fst (GuardElem_calls 2 (replicate 2 CallRead)
            (GuardElem_after 2 ([] @ map CallWrite [1, 2, 3]) (0::nat))) =
       map (\<lambda>v. RetOptional (Some v)) (drop (length [1, 2, 3 :: nat] - 2) [1, 2, 3])
   \<and> FullFlag_size 2 (FullFlag_after 2 ([] @ map CallWrite [1, 2, 3]) (0::nat)) = 2
   \<and> fst (FullFlag_calls 2 (replicate 2 CallRead)
            (FullFlag_after 2 ([] @ map CallWrite [1, 2, 3]) (0::nat))) =
       map (\<lambda>v. RetOptional (Some v)) (drop (length [1, 2, 3 :: nat] - 2) [1, 2, 3])
   \<and> GuardElem_full 2 (GuardElem_after 2 [CallWrite 1, CallWrite 2] (0::nat))
   \<and> fst (GuardElem_calls 2 (replicate 2 CallRead)
            (GuardElem_write 2 7 (GuardElem_after 2 [CallWrite 1, CallWrite 2] (0::nat)))) =
       tl (fst (GuardElem_calls 2 (replicate 2 CallRead)
            (GuardElem_after 2 [CallWrite 1, CallWrite 2] (0::nat)))) @ [RetOptional (Some 7)]
   \<and> FullFlag_full (FullFlag_after 2 [CallWrite 1, CallWrite 2] (0::nat))
   \<and> fst (FullFlag_calls 2 (replicate 2 CallRead)
            (FullFlag_write 2 7 (FullFlag_after 2 [CallWrite 1, CallWrite 2] (0::nat)))) =
       tl (fst (FullFlag_calls 2 (replicate 2 CallRead)
            (FullFlag_after 2 [CallWrite 1, CallWrite 2] (0::nat)))) @ [RetOptional (Some 7)]"
proof -
  have c: "(1::nat) \<le> 2" by simp
  have l: "(2::nat) + 1 < size_t_limit" by (simp add: size_t_limit_def)
  have n: "2 < length [1, 2, 3 :: nat]" by simp
  have e1: "GuardElem_empty (GuardElem_after 2 [] (0::nat))"
    by (simp add: GuardElem_after_def GuardElem_init_def GuardElem_empty_def)
  have e2: "FullFlag_empty (FullFlag_after 2 [] (0::nat))"
    by (simp add: FullFlag_after_def FullFlag_init_def FullFlag_empty_def)
  have f1: "GuardElem_full 2 (GuardElem_after 2 [CallWrite 1, CallWrite 2] (0::nat))"
    by (simp add: GuardElem_after_def GuardElem_init_def GuardElem_write_def
        GuardElem_full_def GuardElem_idx_increment_def
        GuardElem_true_capacity_def sz_add_def size_t_limit_def Let_def)
  have f2: "FullFlag_full (FullFlag_after 2 [CallWrite 1, CallWrite 2] (0::nat))"
    by (simp add: FullFlag_after_def FullFlag_init_def FullFlag_write_def
        FullFlag_full_def FullFlag_idx_increment_def sz_add_def size_t_limit_def Let_def)
  show ?thesis
    using writes_beyond_capacity [OF c l n e1 e2 refl refl refl f1 refl f2, of 7] f1 f2
    by blast
qed

text \<open>
  C3. For every nominal capacity \<open>C \<ge> 1\<close> (with \<open>C + 1\<close> representable in
  \<open>size_t\<close>) and every finite sequence \<open>cs\<close> of calls of read, write, clear, full,
  empty, size and capacity issued to freshly constructed buffers, the two classes
  return the same value at every call of the sequence.
\<close>

theorem strategies_observationally_equivalent:
  assumes "1 \<le> C" and "C + 1 < size_t_limit"
  shows "fst (GuardElem_calls C cs (GuardElem_init C d)) =
         fst (FullFlag_calls C cs (FullFlag_init C d'))"
proof -
  have lim: "C < size_t_limit" using assms(2) by simp
  have "fst (GuardElem_calls C cs (GuardElem_init C d)) = fst (spec_calls C cs [])"
    by (rule guard_after_spec(3) [OF assms])
  also have "\<dots> = fst (FullFlag_calls C cs (FullFlag_init C d'))"
    by (rule flag_after_spec(3) [OF assms(1) lim, symmetric])
  finally show ?thesis .
qed

theorem strategies_observationally_equivalent_witness:
  "fst (GuardElem_calls 2 [CallWrite 1, CallWrite 2, CallWrite 3, CallSize, CallRead, CallClear, CallEmpty]
         (GuardElem_init 2 (0::nat))) =
   fst (FullFlag_calls 2 [CallWrite 1, CallWrite 2, CallWrite 3, CallSize, CallRead, CallClear, CallEmpty]
         (FullFlag_init 2 (0::nat)))"
proof -
  have c: "(1::nat) \<le> 2" by simp
  have l: "(2::nat) + 1 < size_t_limit" by (simp add: size_t_limit_def)
  show ?thesis
    by (rule strategies_observationally_equivalent [OF c l])
qed

text \<open>
  C4. In every state reachable from a freshly constructed buffer of either class with
  nominal capacity \<open>C \<ge> 1\<close> (with \<open>C + 1\<close> representable in \<open>size_t\<close>),
  \<open>size()\<close> lies between 0 and \<open>capacity()\<close> and is exactly the number of elements
  written, not yet read and not discarded (the length of the queue of the contract),
  whatever the physical storage size (\<open>C + 1\<close> slots for the guard element class,
  \<open>C\<close> for the full flag class).
\<close>

theorem size_counts_live_elements:
  assumes "1 \<le> C" and "C + 1 < size_t_limit"
    and "g = GuardElem_after C cs d" and "f = FullFlag_after C cs d"
  shows "0 \<le> GuardElem_size C g \<and> GuardElem_size C g \<le> capacity C
       \<and> GuardElem_size C g = length (spec_after C cs)
       \<and> length (guard_buf g) = C + 1
       \<and> 0 \<le> FullFlag_size C f \<and> FullFlag_size C f \<le> capacity C
       \<and> FullFlag_size C f = length (spec_after C cs)
       \<and> length (flag_buf f) = C"
proof -
  have lim: "C < size_t_limit" using assms(2) by simp
  have le: "length (spec_after C cs) \<le> C"
    by (rule spec_after_length [OF assms(1)])
  have g1: "GuardElem_size C g = length (spec_after C cs)"
    unfolding assms(3) by (rule guard_observers(1) [OF assms(1,2)])
  have f1: "FullFlag_size C f = length (spec_after C cs)"
    unfolding assms(4) by (rule flag_observers(1) [OF assms(1) lim])
  have g2: "length (guard_buf g) = C + 1"
    unfolding assms(3) by (rule guard_after_in_bounds(3) [OF assms(1,2)])
  have f2: "length (flag_buf f) = C"
    unfolding assms(4) by (rule flag_after_in_bounds(3) [OF assms(1) lim])
  show ?thesis
    using le g1 f1 g2 f2 by (simp add: capacity_def)
qed

theorem size_counts_live_elements_witness:
  "GuardElem_size 2 (GuardElem_after 2 [CallWrite 1, CallWrite 2, CallWrite 3, CallRead] (0::nat))
     = length (spec_after 2 [CallWrite 1, CallWrite 2, CallWrite 3, CallRead :: nat call])
   \<and> FullFlag_size 2 (FullFlag_after 2 [CallWrite 1, CallWrite 2, CallWrite 3, CallRead] (0::nat))
     = length (spec_after 2 [CallWrite 1, CallWrite 2, CallWrite 3, CallRead :: nat call])
   \<and> length (spec_after 2 [CallWrite 1, CallWrite 2, CallWrite 3, CallRead :: nat call]) = 1"
proof -
  have c: "(1::nat) \<le> 2" by simp
  have l: "(2::nat) + 1 < size_t_limit" by (simp add: size_t_limit_def)
  have s: "length (spec_after 2 [CallWrite 1, CallWrite 2, CallWrite 3, CallRead :: nat call]) = 1"
    by (simp add: spec_after_def)
  show ?thesis
    using size_counts_live_elements [OF c l refl refl,
        of "[CallWrite 1, CallWrite 2, CallWrite 3, CallRead]" 0] s
    by blast
qed

text \<open>
  C7. In every reachable state of \<open>GuardElemRingBuffer\<close> with nominal capacity
  \<open>C \<ge> 1\<close> (with \<open>C + 1\<close> representable in \<open>size_t\<close>): \<open>empty()\<close> returns true
  if and only if \<open>head = tail\<close>, \<open>full()\<close> returns true if and only if
  \<open>(head + 1) mod (C + 1) = tail\<close>, and the two never hold together.
\<close>

theorem guard_empty_full_exclusive:
  assumes "1 \<le> C" and "C + 1 < size_t_limit" and "g = GuardElem_after C cs d"
  shows "(GuardElem_empty g \<longleftrightarrow> head g = tail g)
       \<and> (GuardElem_full C g \<longleftrightarrow> (head g + 1) mod (C + 1) = tail g)
       \<and> \<not> (GuardElem_empty g \<and> GuardElem_full C g)"
proof -
  have h: "head g \<le> C"
    unfolding assms(3) by (rule guard_after_in_bounds(1) [OF assms(1,2)])
  have inc: "GuardElem_idx_increment C (head g) = (head g + 1) mod (C + 1)"
    using h by (simp add: GuardElem_idx_increment_eq [OF assms(2) h])
  have a: "GuardElem_empty g \<longleftrightarrow> head g = tail g"
    by (simp add: GuardElem_empty_def)
  have b: "GuardElem_full C g \<longleftrightarrow> (head g + 1) mod (C + 1) = tail g"
    by (simp add: GuardElem_full_def inc)
  have "\<not> (spec_after C cs = [] \<and> length (spec_after C cs) = C)"
    using assms(1) by auto
  then have c: "\<not> (GuardElem_empty g \<and> GuardElem_full C g)"
    unfolding assms(3) by (simp add: guard_observers(2,3) [OF assms(1,2)])
  show ?thesis
    using a b c by blast
qed

theorem guard_empty_full_exclusive_witness:
  "(GuardElem_empty (GuardElem_after 2 [CallWrite 1, CallWrite 2] (0::nat)) \<longleftrightarrow>
      head (GuardElem_after 2 [CallWrite 1, CallWrite 2] (0::nat)) =
      tail (GuardElem_after 2 [CallWrite 1, CallWrite 2] (0::nat)))
   \<and> (GuardElem_full 2 (GuardElem_after 2 [CallWrite 1, CallWrite 2] (0::nat)) \<longleftrightarrow>
      (head (GuardElem_after 2 [CallWrite 1, CallWrite 2] (0::nat)) + 1) mod (2 + 1) =
      tail (GuardElem_after 2 [CallWrite 1, CallWrite 2] (0::nat)))
   \<and> \<not> (GuardElem_empty (GuardElem_after 2 [CallWrite 1, CallWrite 2] (0::nat))
        \<and> GuardElem_full 2 (GuardElem_after 2 [CallWrite 1, CallWrite 2] (0::nat)))"
proof -
  have c: "(1::nat) \<le> 2" by simp
  have l: "(2::nat) + 1 < size_t_limit" by (simp add: size_t_limit_def)
  show ?thesis
    by (rule guard_empty_full_exclusive [OF c l refl])
qed

text \<open>
  C5, as stated, fails: with capacity 2, after \<open>write(1)\<close> the calls \<open>write(2)\<close>,
  \<open>read()\<close> return 1, the oldest element, in both classes.
\<close>

theorem write_then_read_counterexample:
  "fst (GuardElem_read 2 (GuardElem_write 2 2 (GuardElem_after 2 [CallWrite 1] (0::nat)))) = Some 1
   \<and> fst (GuardElem_read 2 (GuardElem_write 2 2 (GuardElem_after 2 [CallWrite 1] (0::nat)))) \<noteq> Some 2
   \<and> fst (FullFlag_read 2 (FullFlag_write 2 2 (FullFlag_after 2 [CallWrite 1] (0::nat)))) = Some 1
   \<and> fst (FullFlag_read 2 (FullFlag_write 2 2 (FullFlag_after 2 [CallWrite 1] (0::nat)))) \<noteq> Some 2"
  by (simp add: GuardElem_after_def GuardElem_init_def GuardElem_write_def GuardElem_read_def
        GuardElem_empty_def GuardElem_full_def GuardElem_idx_increment_def
        GuardElem_true_capacity_def
        FullFlag_after_def FullFlag_init_def FullFlag_write_def FullFlag_read_def
        FullFlag_empty_def FullFlag_full_def FullFlag_idx_increment_def
        sz_add_def size_t_limit_def Let_def)

text \<open>
  C5, amended. For every reachable buffer state of either class (nominal capacity
  \<open>C \<ge> 1\<close>, \<open>C + 1\<close> representable in \<open>size_t\<close>) and every value \<open>v\<close>:
  \<open>write(v)\<close> followed immediately by \<open>read()\<close> returns \<open>v\<close> when the buffer was
  empty before the write or when \<open>C = 1\<close>; when the buffer was neither empty nor full
  the read returns what \<open>read()\<close> would have returned before the write, the oldest
  element.
\<close>

theorem write_then_read_roundtrip:
  assumes "1 \<le> C" and "C + 1 < size_t_limit"
    and "g = GuardElem_after C cs d" and "f = FullFlag_after C cs d"
  shows "(GuardElem_empty g \<or> C = 1 \<longrightarrow>
            fst (GuardElem_read C (GuardElem_write C v g)) = Some v)
       \<and> (\<not> GuardElem_empty g \<and> \<not> GuardElem_full C g \<longrightarrow>
            fst (GuardElem_read C (GuardElem_write C v g)) = fst (GuardElem_read C g))
       \<and> (FullFlag_empty f \<or> C = 1 \<longrightarrow>
            fst (FullFlag_read C (FullFlag_write C v f)) = Some v)
       \<and> (\<not> FullFlag_empty f \<and> \<not> FullFlag_full f \<longrightarrow>
            fst (FullFlag_read C (FullFlag_write C v f)) = fst (FullFlag_read C f))"
proof -
  have lim: "C < size_t_limit" using assms(2) by simp
  let ?q = "spec_after C cs"
  have le: "length ?q \<le> C" by (rule spec_after_length [OF assms(1)])
  have w: "(case spec_after C (cs @ [CallWrite v]) of [] \<Rightarrow> None | x # xs \<Rightarrow> Some x) =
             (if ?q = [] \<or> C = 1 then Some v
              else if length ?q = C then Some (?q ! 1) else Some (?q ! 0))"
    unfolding spec_after_write by (rule spec_write_then_read [OF assms(1) le])
  have r: "(case ?q of [] \<Rightarrow> None | x # xs \<Rightarrow> Some x) = (if ?q = [] then None else Some (?q ! 0))"
    by (cases ?q) simp_all
  have gw: "fst (GuardElem_read C (GuardElem_write C v g)) =
              (if ?q = [] \<or> C = 1 then Some v
               else if length ?q = C then Some (?q ! 1) else Some (?q ! 0))"
    unfolding assms(3) GuardElem_after_write [symmetric]
    by (simp only: guard_read_result [OF assms(1,2)] w)
  have gr: "fst (GuardElem_read C g) = (if ?q = [] then None else Some (?q ! 0))"
    unfolding assms(3) by (simp only: guard_read_result [OF assms(1,2)] r)
  have fw: "fst (FullFlag_read C (FullFlag_write C v f)) =
              (if ?q = [] \<or> C = 1 then Some v
               else if length ?q = C then Some (?q ! 1) else Some (?q ! 0))"
    unfolding assms(4) FullFlag_after_write [symmetric]
    by (simp only: flag_read_result [OF assms(1) lim] w)
  have fr: "fst (FullFlag_read C f) = (if ?q = [] then None else Some (?q ! 0))"
    unfolding assms(4) by (simp only: flag_read_result [OF assms(1) lim] r)
  have ge: "GuardElem_empty g \<longleftrightarrow> ?q = []" and gf: "GuardElem_full C g \<longleftrightarrow> length ?q = C"
    unfolding assms(3) by (simp_all add: guard_observers [OF assms(1,2)])
  have fe: "FullFlag_empty f \<longleftrightarrow> ?q = []" and ff: "FullFlag_full f \<longleftrightarrow> length ?q = C"
    unfolding assms(4) by (simp_all add: flag_observers [OF assms(1) lim])
  have pos: "?q \<noteq> [] \<longrightarrow> 1 \<le> length ?q"
    by (cases ?q) simp_all
  show ?thesis
    unfolding gw gr fw fr ge gf fe ff using le pos by auto
qed

theorem write_then_read_roundtrip_witness:
  "GuardElem_empty (GuardElem_after 2 [CallWrite 1, CallRead] (0::nat))
   \<and> fst (GuardElem_read 2 (GuardElem_write 2 5 (GuardElem_after 2 [CallWrite 1, CallRead] (0::nat))))
       = Some 5
   \<and> FullFlag_empty (FullFlag_after 2 [CallWrite 1, CallRead] (0::nat))
   \<and> fst (FullFlag_read 2 (FullFlag_write 2 5 (FullFlag_after 2 [CallWrite 1, CallRead] (0::nat))))
       = Some 5
   \<and> \<not> GuardElem_empty (GuardElem_after 2 [CallWrite 1] (0::nat))
   \<and> \<not> GuardElem_full 2 (GuardElem_after 2 [CallWrite 1] (0::nat))
   \<and> fst (GuardElem_read 2 (GuardElem_write 2 5 (GuardElem_after 2 [CallWrite 1] (0::nat))))
       = fst (GuardElem_read 2 (GuardElem_after 2 [CallWrite 1] (0::nat)))
   \<and> \<not> FullFlag_empty (FullFlag_after 2 [CallWrite 1] (0::nat))
   \<and> \<not> FullFlag_full (FullFlag_after 2 [CallWrite 1] (0::nat))
   \<and> fst (FullFlag_read 2 (FullFlag_write 2 5 (FullFlag_after 2 [CallWrite 1] (0::nat))))
       = fst (FullFlag_read 2 (FullFlag_after 2 [CallWrite 1] (0::nat)))"
proof -
  have c: "(1::nat) \<le> 2" by simp
  have l: "(2::nat) + 1 < size_t_limit" by (simp add: size_t_limit_def)
  have e1: "GuardElem_empty (GuardElem_after 2 [CallWrite 1, CallRead] (0::nat))"
    by (simp add: GuardElem_after_def GuardElem_init_def GuardElem_write_def GuardElem_read_def
        GuardElem_empty_def GuardElem_full_def GuardElem_idx_increment_def
        GuardElem_true_capacity_def sz_add_def size_t_limit_def Let_def)
  have e2: "FullFlag_empty (FullFlag_after 2 [CallWrite 1, CallRead] (0::nat))"
    by (simp add: FullFlag_after_def FullFlag_init_def FullFlag_write_def FullFlag_read_def
        FullFlag_empty_def FullFlag_full_def FullFlag_idx_increment_def
        sz_add_def size_t_limit_def Let_def)
  have n1: "\<not> GuardElem_empty (GuardElem_after 2 [CallWrite 1] (0::nat))"
    "\<not> GuardElem_full 2 (GuardElem_after 2 [CallWrite 1] (0::nat))"
    by (simp_all add: GuardElem_after_def GuardElem_init_def GuardElem_write_def
        GuardElem_empty_def GuardElem_full_def GuardElem_idx_increment_def
        GuardElem_true_capacity_def sz_add_def size_t_limit_def Let_def)
  have n2: "\<not> FullFlag_empty (FullFlag_after 2 [CallWrite 1] (0::nat))"
    "\<not> FullFlag_full (FullFlag_after 2 [CallWrite 1] (0::nat))"
    by (simp_all add: FullFlag_after_def FullFlag_init_def FullFlag_write_def
        FullFlag_empty_def FullFlag_full_def FullFlag_idx_increment_def
        sz_add_def size_t_limit_def Let_def)
  show ?thesis
    using write_then_read_roundtrip [OF c l refl refl, of "[CallWrite 1, CallRead]" 0 5]
      write_then_read_roundtrip [OF c l refl refl, of "[CallWrite 1]" 0 5] e1 e2 n1 n2
    by blast
qed

text \<open>
  C6, as stated, fails: \<open>clear()\<close> does not move \<open>tail\<close> to \<open>head\<close>; with capacity 2,
  after \<open>write(7)\<close> the cursors are \<open>head = 1\<close>, \<open>tail = 0\<close>, and \<open>clear()\<close> leaves
  \<open>head = 0\<close>, \<open>tail = 0\<close> in both classes.
\<close>

theorem clear_moves_head_counterexample:
  "head (GuardElem_clear (GuardElem_after 2 [CallWrite 7] (0::nat))) \<noteq>
     head (GuardElem_after 2 [CallWrite 7] (0::nat))
   \<and> tail (GuardElem_clear (GuardElem_after 2 [CallWrite 7] (0::nat))) \<noteq>
     head (GuardElem_after 2 [CallWrite 7] (0::nat))
   \<and> head (FullFlag_clear (FullFlag_after 2 [CallWrite 7] (0::nat))) \<noteq>
     head (FullFlag_after 2 [CallWrite 7] (0::nat))
   \<and> tail (FullFlag_clear (FullFlag_after 2 [CallWrite 7] (0::nat))) \<noteq>
     head (FullFlag_after 2 [CallWrite 7] (0::nat))"
  by (simp add: GuardElem_after_def GuardElem_init_def GuardElem_write_def GuardElem_clear_def
        GuardElem_full_def GuardElem_idx_increment_def GuardElem_true_capacity_def
        FullFlag_after_def FullFlag_init_def FullFlag_write_def FullFlag_clear_def
        FullFlag_full_def FullFlag_idx_increment_def
        sz_add_def size_t_limit_def Let_def)

text \<open>
  C6, amended. For every reachable state of either class (nominal capacity
  \<open>C \<ge> 1\<close>, \<open>C + 1\<close> representable in \<open>size_t\<close>), \<open>clear()\<close> resets the buffer
  to the empty state in one step by setting \<open>head\<close> equal to \<open>tail\<close>, leaving
  \<open>tail\<close> and the storage unchanged, and, in the full flag class, setting the full
  flag to false; afterwards \<open>empty()\<close> is true, \<open>full()\<close> is false and \<open>size()\<close>
  is 0.
\<close>

theorem clear_resets_to_empty:
  assumes "1 \<le> C" and "C + 1 < size_t_limit"
    and "g = GuardElem_after C cs d" and "f = FullFlag_after C cs d"
  shows "head (GuardElem_clear g) = tail g
       \<and> tail (GuardElem_clear g) = tail g
       \<and> guard_buf (GuardElem_clear g) = guard_buf g
       \<and> GuardElem_empty (GuardElem_clear g)
       \<and> \<not> GuardElem_full C (GuardElem_clear g)
       \<and> GuardElem_size C (GuardElem_clear g) = 0
       \<and> head (FullFlag_clear f) = tail f
       \<and> tail (FullFlag_clear f) = tail f
       \<and> flag_buf (FullFlag_clear f) = flag_buf f
       \<and> \<not> flag_full (FullFlag_clear f)
       \<and> FullFlag_empty (FullFlag_clear f)
       \<and> \<not> FullFlag_full (FullFlag_clear f)
       \<and> FullFlag_size C (FullFlag_clear f) = 0"
proof -
  have lim: "C < size_t_limit" using assms(2) by simp
  have gc: "GuardElem_clear g = GuardElem_after C (cs @ [CallClear]) d"
    unfolding assms(3) by (simp only: GuardElem_after_clear)
  have fc: "FullFlag_clear f = FullFlag_after C (cs @ [CallClear]) d"
    unfolding assms(4) by (simp only: FullFlag_after_clear)
  have g1: "head (GuardElem_clear g) = tail g" "tail (GuardElem_clear g) = tail g"
    "guard_buf (GuardElem_clear g) = guard_buf g" "GuardElem_empty (GuardElem_clear g)"
    by (simp_all add: GuardElem_clear_def GuardElem_empty_def)
  have g2: "\<not> GuardElem_full C (GuardElem_clear g)" "GuardElem_size C (GuardElem_clear g) = 0"
    unfolding gc using assms(1)
    by (simp_all add: guard_observers [OF assms(1,2)] spec_after_clear)
  have f1: "head (FullFlag_clear f) = tail f" "tail (FullFlag_clear f) = tail f"
    "flag_buf (FullFlag_clear f) = flag_buf f" "\<not> flag_full (FullFlag_clear f)"
    "FullFlag_empty (FullFlag_clear f)" "\<not> FullFlag_full (FullFlag_clear f)"
    by (simp_all add: FullFlag_clear_def FullFlag_empty_def FullFlag_full_def)
  have f2: "FullFlag_size C (FullFlag_clear f) = 0"
    unfolding fc by (simp add: flag_observers [OF assms(1) lim] spec_after_clear)
  show ?thesis
    using g1 g2 f1 f2 by blast
qed

theorem clear_resets_to_empty_witness:
  "head (GuardElem_clear (GuardElem_after 2 [CallWrite 7] (0::nat))) =
     tail (GuardElem_after 2 [CallWrite 7] (0::nat))
   \<and> GuardElem_size 2 (GuardElem_clear (GuardElem_after 2 [CallWrite 7] (0::nat))) = 0
   \<and> head (FullFlag_clear (FullFlag_after 2 [CallWrite 7] (0::nat))) =
     tail (FullFlag_after 2 [CallWrite 7] (0::nat))
   \<and> FullFlag_size 2 (FullFlag_clear (FullFlag_after 2 [CallWrite 7] (0::nat))) = 0"
proof -
  have c: "(1::nat) \<le> 2" by simp
  have l: "(2::nat) + 1 < size_t_limit" by (simp add: size_t_limit_def)
  show ?thesis
    using clear_resets_to_empty [OF c l refl refl, of "[CallWrite 7]" 0]
    by blast
qed

text \<open>
  C8. In every reachable state of \<open>FullFlagRingBuffer\<close> with nominal capacity
  \<open>C \<ge> 1\<close>, the flag \<open>_full\<close> is true if and only if the buffer holds exactly
  \<open>C\<close> live elements; after any write, \<open>head = tail\<close> holds exactly when the buffer
  is full, which is the value the write stores in the flag; and after any successful
  read the flag is false and fewer than \<open>C\<close> elements are live.
\<close>

theorem full_flag_tracks_fullness:
  assumes "1 \<le> C" and "C < size_t_limit" and "f = FullFlag_after C cs d"
  shows "(flag_full f \<longleftrightarrow> length (spec_after C cs) = C)
       \<and> (head (FullFlag_write C v f) = tail (FullFlag_write C v f) \<longleftrightarrow>
            length (spec_after C (cs @ [CallWrite v])) = C)
       \<and> (flag_full (FullFlag_write C v f) \<longleftrightarrow>
            head (FullFlag_write C v f) = tail (FullFlag_write C v f))
       \<and> (\<not> FullFlag_empty f \<longrightarrow>
            fst (FullFlag_read C f) \<noteq> None
            \<and> \<not> flag_full (snd (FullFlag_read C f))
            \<and> length (spec_after C (cs @ [CallRead])) < C)"
proof -
  let ?q = "spec_after C cs"
  have a: "flag_full f \<longleftrightarrow> length ?q = C"
    using flag_observers(2) [OF assms(1,2), of cs d]
    unfolding assms(3) by (simp add: FullFlag_full_def)
  have c: "flag_full (FullFlag_write C v f) \<longleftrightarrow>
            head (FullFlag_write C v f) = tail (FullFlag_write C v f)"
    by (simp add: FullFlag_write_def Let_def)
  have "flag_full (FullFlag_write C v f) \<longleftrightarrow> length (spec_after C (cs @ [CallWrite v])) = C"
    using flag_observers(2) [OF assms(1,2), of "cs @ [CallWrite v]" d]
    unfolding assms(3) FullFlag_after_write by (simp add: FullFlag_full_def)
  then have b: "head (FullFlag_write C v f) = tail (FullFlag_write C v f) \<longleftrightarrow>
            length (spec_after C (cs @ [CallWrite v])) = C"
    using c by simp
  have d: "fst (FullFlag_read C f) \<noteq> None \<and> \<not> flag_full (snd (FullFlag_read C f))
            \<and> length (spec_after C (cs @ [CallRead])) < C"
    if ne: "\<not> FullFlag_empty f"
  proof -
    have "?q \<noteq> []"
      using ne flag_observers(3) [OF assms(1,2), of cs d] unfolding assms(3) by simp
    moreover have "length ?q \<le> C" by (rule spec_after_length [OF assms(1)])
    ultimately have "length (tl ?q) < C" by (cases ?q) auto
    then have "length (spec_after C (cs @ [CallRead])) < C"
      by (simp only: spec_after_read)
    moreover have "fst (FullFlag_read C f) \<noteq> None" "\<not> flag_full (snd (FullFlag_read C f))"
      using ne by (simp_all add: FullFlag_read_def Let_def)
    ultimately show ?thesis by blast
  qed
  show ?thesis
    using a b c d by blast
qed

theorem full_flag_tracks_fullness_witness:
  "(flag_full (FullFlag_after 2 [CallWrite 1, CallWrite 2] (0::nat)) \<longleftrightarrow>
      length (spec_after 2 [CallWrite 1, CallWrite 2 :: nat call]) = 2)
   \<and> \<not> FullFlag_empty (FullFlag_after 2 [CallWrite 1, CallWrite 2] (0::nat))
   \<and> \<not> flag_full (snd (FullFlag_read 2 (FullFlag_after 2 [CallWrite 1, CallWrite 2] (0::nat))))"
proof -
  have c: "(1::nat) \<le> 2" by simp
  have l: "(2::nat) < size_t_limit" by (simp add: size_t_limit_def)
  have ne: "\<not> FullFlag_empty (FullFlag_after 2 [CallWrite 1, CallWrite 2] (0::nat))"
    by (simp add: FullFlag_after_def FullFlag_init_def FullFlag_write_def
        FullFlag_empty_def FullFlag_full_def FullFlag_idx_increment_def
        sz_add_def size_t_limit_def Let_def)
  show ?thesis
    using full_flag_tracks_fullness [OF c l refl, of "[CallWrite 1, CallWrite 2]" 0] ne
    by blast
qed

text \<open>
  C10. For either class with nominal capacity \<open>C \<ge> 1\<close> (with \<open>C + 1\<close>
  representable in \<open>size_t\<close>) and every reachable state, immediately after
  \<open>write(v)\<close> the buffer is not empty: \<open>empty()\<close> returns false, a following
  \<open>read()\<close> returns a value, and the value just written is reachable: draining the
  buffer (\<open>size()\<close> reads) returns \<open>v\<close> as its last value.
\<close>

theorem write_leaves_nonempty:
  assumes "1 \<le> C" and "C + 1 < size_t_limit"
    and "g = GuardElem_write C v (GuardElem_after C cs d)"
    and "f = FullFlag_write C v (FullFlag_after C cs d)"
  shows "\<not> GuardElem_empty g
       \<and> fst (GuardElem_read C g) \<noteq> None
       \<and> 0 < GuardElem_size C g
       \<and> last (fst (GuardElem_calls C (replicate (GuardElem_size C g) CallRead) g)) =
            RetOptional (Some v)
       \<and> \<not> FullFlag_empty f
       \<and> fst (FullFlag_read C f) \<noteq> None
       \<and> 0 < FullFlag_size C f
       \<and> last (fst (FullFlag_calls C (replicate (FullFlag_size C f) CallRead) f)) =
            RetOptional (Some v)"
proof -
  have lim: "C < size_t_limit" using assms(2) by simp
  let ?q = "spec_after C (cs @ [CallWrite v])"
  obtain xs where q: "?q = xs @ [v]"
    by (simp add: spec_after_write)
  have ne: "?q \<noteq> []" using q by simp
  have g: "g = GuardElem_after C (cs @ [CallWrite v]) d"
    unfolding assms(3) by (simp only: GuardElem_after_write)
  have f: "f = FullFlag_after C (cs @ [CallWrite v]) d"
    unfolding assms(4) by (simp only: FullFlag_after_write)
  have dr: "last (map (\<lambda>v. RetOptional (Some v)) (take (length ?q) ?q)) = RetOptional (Some v)"
    using q by (simp add: last_map)
  have g1: "\<not> GuardElem_empty g"
    unfolding g using ne by (simp add: guard_observers(3) [OF assms(1,2)])
  have g2: "fst (GuardElem_read C g) \<noteq> None"
    unfolding g using ne by (cases ?q) (simp_all add: guard_read_result [OF assms(1,2)])
  have g3: "GuardElem_size C g = length ?q"
    unfolding g by (rule guard_observers(1) [OF assms(1,2)])
  have g4: "last (fst (GuardElem_calls C (replicate (GuardElem_size C g) CallRead) g)) =
            RetOptional (Some v)"
    unfolding g3 unfolding g
    by (subst guard_drain [OF assms(1,2)]) (simp_all only: dr order_refl)
  have f1: "\<not> FullFlag_empty f"
    unfolding f using ne by (simp add: flag_observers(3) [OF assms(1) lim])
  have f2: "fst (FullFlag_read C f) \<noteq> None"
    unfolding f using ne by (cases ?q) (simp_all add: flag_read_result [OF assms(1) lim])
  have f3: "FullFlag_size C f = length ?q"
    unfolding f by (rule flag_observers(1) [OF assms(1) lim])
  have f4: "last (fst (FullFlag_calls C (replicate (FullFlag_size C f) CallRead) f)) =
            RetOptional (Some v)"
    unfolding f3 unfolding f
    by (subst flag_drain [OF assms(1) lim]) (simp_all only: dr order_refl)
  have pos: "0 < length ?q" using ne by simp
  show ?thesis
    using g1 g2 g4 f1 f2 f4 pos unfolding g3 f3 by blast
qed

theorem write_leaves_nonempty_witness:
  "\<not> GuardElem_empty (GuardElem_write 2 5 (GuardElem_after 2 [CallWrite 1, CallWrite 2] (0::nat)))
   \<and> fst (GuardElem_read 2 (GuardElem_write 2 5 (GuardElem_after 2 [CallWrite 1, CallWrite 2] (0::nat))))
       \<noteq> None
   \<and> \<not> FullFlag_empty (FullFlag_write 2 5 (FullFlag_after 2 [CallWrite 1, CallWrite 2] (0::nat)))
   \<and> fst (FullFlag_read 2 (FullFlag_write 2 5 (FullFlag_after 2 [CallWrite 1, CallWrite 2] (0::nat))))
       \<noteq> None"
proof -
  have c: "(1::nat) \<le> 2" by simp
  have l: "(2::nat) + 1 < size_t_limit" by (simp add: size_t_limit_def)
  show ?thesis
    using write_leaves_nonempty [OF c l refl refl, of 5 "[CallWrite 1, CallWrite 2]" 0]
    by blast
qed

text \<open>
  C9 does not hold of the code: in each of the six operations of both classes the mutex
  is acquired and released by the first statement, before the operation reads or writes
  any field of the buffer, so no access to the buffer state happens while the mutex is
  held and concurrent calls are not serialized.
\<close>

theorem mutex_released_before_access:
  "\<not> held_at_every_access False (GuardElem_read_events g)
   \<and> \<not> held_at_every_access False (GuardElem_write_events S g)
   \<and> \<not> held_at_every_access False GuardElem_clear_events
   \<and> \<not> held_at_every_access False GuardElem_full_events
   \<and> \<not> held_at_every_access False GuardElem_empty_events
   \<and> \<not> held_at_every_access False (GuardElem_size_events S g)
   \<and> \<not> held_at_every_access False (FullFlag_read_events f)
   \<and> \<not> held_at_every_access False (FullFlag_write_events f)
   \<and> \<not> held_at_every_access False FullFlag_clear_events
   \<and> \<not> held_at_every_access False FullFlag_full_events
   \<and> \<not> held_at_every_access False FullFlag_empty_events
   \<and> \<not> held_at_every_access False (FullFlag_size_events f)"
  by (simp add: scoped_lock_statement_def
        GuardElem_read_events_def GuardElem_write_events_def GuardElem_clear_events_def
        GuardElem_full_events_def GuardElem_empty_events_def GuardElem_size_events_def
        FullFlag_read_events_def FullFlag_write_events_def FullFlag_clear_events_def
        FullFlag_full_events_def FullFlag_empty_events_def FullFlag_size_events_def)

end
